theory Spec2Isabelle
  imports Complex_Main
begin

section \<open>Outcomes of a run\<close>

text \<open>
  A C++ function of the repository either returns, or throws an exception, or aborts on a
  failed \<open>assert\<close>, or runs into behaviour the language leaves undefined. The last three
  are values of the type \<open>failure\<close>; a fallible function returns \<open>failure + 'a\<close>.
  The \<open>assert\<close> macro is modelled as compiled in: the importer has no other validation.
\<close>

datatype undefined_behaviour =
    SignedOverflow
  | UninitializedRead
  | OutOfBounds
  | FloatToIntOutOfRange

datatype failure =
    Throw string
  | AssertionFailed string
  | Undefined undefined_behaviour

subsection \<open>The type \<open>int\<close>\<close>

text \<open>
  Values of the C++ type \<open>int\<close> are integers between \<open>INT_MIN\<close> and \<open>INT_MAX\<close>;
  a product that leaves the range is undefined behaviour.
\<close>

definition INT_MAX :: int where
  "INT_MAX = 2147483647"

definition INT_MIN :: int where
  "INT_MIN = - 2147483648"

definition is_int :: "int \<Rightarrow> bool" where
  "is_int v = (INT_MIN \<le> v \<and> v \<le> INT_MAX)"

definition int_mul :: "int \<Rightarrow> int \<Rightarrow> failure + int" where
  "int_mul a b = (if is_int (a * b) then Inr (a * b) else Inl (Undefined SignedOverflow))"

subsection \<open>The type \<open>double\<close>\<close>

text \<open>
  A \<open>double\<close> is a real number, an infinity or a NaN. The sign of a zero is left out:
  no function modelled here tells the two zeros apart.
\<close>

datatype double = Finite real | PInf | NInf | NaN

text \<open>The operator \<open><\<close> on doubles: false as soon as one side is a NaN.\<close>

fun dless :: "double \<Rightarrow> double \<Rightarrow> bool" where
  "dless (Finite a) (Finite b) = (a < b)"
| "dless (Finite a) PInf = True"
| "dless NInf (Finite b) = True"
| "dless NInf PInf = True"
| "dless _ _ = False"

text \<open>
  \<open>std::round\<close> rounds to the nearest integer, halfway cases away from zero, and leaves
  infinities and NaNs as they are. The conversion of a double to \<open>int\<close> drops the
  fraction; it is undefined when the result is not a value of the type.
\<close>

definition round_half_away :: "real \<Rightarrow> int" where
  "round_half_away x = (if 0 \<le> x then \<lfloor>x + 1 / 2\<rfloor> else \<lceil>x - 1 / 2\<rceil>)"

definition trunc_zero :: "real \<Rightarrow> int" where
  "trunc_zero x = (if 0 \<le> x then \<lfloor>x\<rfloor> else \<lceil>x\<rceil>)"

fun std_round :: "double \<Rightarrow> double" where
  "std_round (Finite x) = Finite (of_int (round_half_away x))"
| "std_round d = d"

fun double_to_int :: "double \<Rightarrow> failure + int" where
  "double_to_int (Finite x) =
    (if is_int (trunc_zero x) then Inr (trunc_zero x) else Inl (Undefined FloatToIntOutOfRange))"
| "double_to_int _ = Inl (Undefined FloatToIntOutOfRange)"

subsection \<open>Arithmetic on doubles\<close>

text \<open>
  The result of an arithmetic operation is the exact result rounded to the nearest number
  with a significand of 53 bits, halfway cases to the even significand. The numbers of
  the format near \<open>a\<close> are the multiples of \<open>2 powi e\<close>, where \<open>e + 52\<close> is the exponent
  of \<open>a\<close>, \<open>e\<close> not below \<open>- 1074\<close> (the subnormal numbers) and not above \<open>971\<close>:
  \<open>grid 971 a\<close> searches this \<open>e\<close> downwards. A result that rounds to \<open>2 ^ 1024\<close> or
  beyond is an infinity.
\<close>

function grid :: "int \<Rightarrow> real \<Rightarrow> int" where
  "grid e a = (if - 1074 < e \<and> a < 2 powi (e + 52) then grid (e - 1) a else e)"
  by pat_completeness auto
termination
  by (relation "measure (\<lambda>(e, a). nat (e + 1074))") auto

declare grid.simps [simp del]

definition ulp_exponent :: "real \<Rightarrow> int" where
  "ulp_exponent x = grid 971 \<bar>x\<bar>"

definition round_even :: "real \<Rightarrow> int" where
  "round_even y =
    (let n = \<lfloor>y\<rfloor>; d = y - of_int n
     in if d < 1 / 2 then n else if 1 / 2 < d then n + 1 else if even n then n else n + 1)"

definition rnd :: "real \<Rightarrow> real" where
  "rnd x = of_int (round_even (x / 2 powi ulp_exponent x)) * 2 powi ulp_exponent x"

definition binary64 :: "real \<Rightarrow> double" where
  "binary64 x =
    (let r = rnd x
     in if 2 ^ 1024 \<le> r then PInf else if r \<le> - (2 ^ 1024) then NInf else Finite r)"

definition double_of_int :: "int \<Rightarrow> double" where
  "double_of_int i = binary64 (of_int i)"

fun dmul :: "double \<Rightarrow> double \<Rightarrow> double" where
  "dmul (Finite a) (Finite b) = binary64 (a * b)"
| "dmul NaN _ = NaN"
| "dmul _ NaN = NaN"
| "dmul (Finite a) PInf = (if a = 0 then NaN else if 0 < a then PInf else NInf)"
| "dmul (Finite a) NInf = (if a = 0 then NaN else if 0 < a then NInf else PInf)"
| "dmul PInf (Finite b) = (if b = 0 then NaN else if 0 < b then PInf else NInf)"
| "dmul NInf (Finite b) = (if b = 0 then NaN else if 0 < b then NInf else PInf)"
| "dmul PInf PInf = PInf"
| "dmul PInf NInf = NInf"
| "dmul NInf PInf = NInf"
| "dmul NInf NInf = PInf"

text \<open>
  Division: a finite number divided by zero is an infinity, and zero divided by zero is a
  NaN. (The zero divisors here come from values of type \<open>int\<close>, so they are \<open>+0\<close>.)
\<close>

fun ddiv :: "double \<Rightarrow> double \<Rightarrow> double" where
  "ddiv (Finite a) (Finite b) =
    (if b = 0 then (if a = 0 then NaN else if 0 < a then PInf else NInf)
     else binary64 (a / b))"
| "ddiv NaN _ = NaN"
| "ddiv _ NaN = NaN"
| "ddiv (Finite a) PInf = Finite 0"
| "ddiv (Finite a) NInf = Finite 0"
| "ddiv PInf (Finite b) = (if 0 \<le> b then PInf else NInf)"
| "ddiv NInf (Finite b) = (if 0 \<le> b then NInf else PInf)"
| "ddiv PInf PInf = NaN"
| "ddiv PInf NInf = NaN"
| "ddiv NInf PInf = NaN"
| "ddiv NInf NInf = NaN"

text \<open>
  The conversion of a double to \<open>size_t\<close> drops the fraction; it is undefined unless the
  result is one of \<open>0, ..., 2 ^ 64 - 1\<close>.
\<close>

fun double_to_size_t :: "double \<Rightarrow> failure + nat" where
  "double_to_size_t (Finite x) =
    (if - 1 < x \<and> x < 2 ^ 64 then Inr (nat (trunc_zero x))
     else Inl (Undefined FloatToIntOutOfRange))"
| "double_to_size_t _ = Inl (Undefined FloatToIntOutOfRange)"

section \<open>CsvImporter\<close>

text \<open>
  The two CSV readers are the lists of the rows still to be read, each row as
  \<open>read_row\<close> delivers it: the vertex row as \<open>(vert_id, xcoord, ycoord)\<close>, the edge row as
  \<open>(edge_tail, edge_head, length, capacity, speed)\<close> with \<open>length\<close> and \<open>speed\<close> still
  text. The field \<open>coordinate\<close> of the vertex record is never written by the importer and
  is left out; \<open>LatLng(x, y)\<close> is kept as the pair of its arguments. The fields \<open>id\<close> and
  \<open>length\<close> are written with a prime, the names being taken. The current records
  hold nothing before the first row is read.
\<close>

type_synonym vertex_row = "int \<times> double \<times> double"

type_synonym edge_row = "int \<times> int \<times> string \<times> int \<times> string"

record VertexRecord =
  id' :: int
  latLng :: "double \<times> double"

record EdgeRecord =
  tail :: int
  head :: int
  length' :: int
  capacity :: int
  freeFlowSpeed :: int

record CsvImporter =
  vertexReader :: "vertex_row list"
  edgeReader :: "edge_row list"
  analysisPeriod :: int
  origToNewIds :: "int \<rightharpoonup> int"
  nextVertexId :: int
  currentVertex :: "VertexRecord option"
  currentEdge :: "EdgeRecord option"

text \<open>
  The constructor: the member \<open>analysisPeriod\<close> is an \<open>int\<close> initialised from the
  \<open>double\<close> argument, and the assertion in the body is about the argument.
\<close>

definition new_CsvImporter ::
  "vertex_row list \<Rightarrow> edge_row list \<Rightarrow> double \<Rightarrow> failure + CsvImporter" where
  "new_CsvImporter vertices edges period =
    (case double_to_int period of
       Inl e \<Rightarrow> Inl e
     | Inr p \<Rightarrow>
         if \<not> dless (Finite 0) period then Inl (AssertionFailed ''analysisPeriod > 0'')
         else Inr \<lparr>vertexReader = vertices, edgeReader = edges, analysisPeriod = p,
                   origToNewIds = Map.empty, nextVertexId = 0,
                   currentVertex = None, currentEdge = None\<rparr>)"

definition duplicate_vertex :: failure where
  "duplicate_vertex =
     AssertionFailed ''origToNewIds.find(currentVertex.id) == origToNewIds.end()''"

definition nextVertex :: "CsvImporter \<Rightarrow> failure + (bool \<times> CsvImporter)" where
  "nextVertex im =
    (case vertexReader im of
       [] \<Rightarrow> Inr (False, im)
     | (vid, x, y) # rest \<Rightarrow>
         if origToNewIds im vid \<noteq> None then Inl duplicate_vertex
         else if nextVertexId im = INT_MAX then Inl (Undefined SignedOverflow)
         else Inr (True, im\<lparr>vertexReader := rest,
                               origToNewIds := (origToNewIds im)(vid \<mapsto> nextVertexId im),
                               nextVertexId := nextVertexId im + 1,
                               currentVertex := Some \<lparr>id' = vid, latLng = (x, y)\<rparr>\<rparr>))"

definition vertexId :: "CsvImporter \<Rightarrow> int" where
  "vertexId im = nextVertexId im - 1"

text \<open>
  \<open>lexicalCast\<close> is declared in a header that is not among the sources: the two
  instances used by \<open>nextEdge\<close> are parameters, each returning the parsed value or failing.
\<close>

definition negative_capacity :: failure where
  "negative_capacity = AssertionFailed ''currentEdge.capacity >= 0''"

definition negative_speed :: failure where
  "negative_speed = AssertionFailed ''currentEdge.freeFlowSpeed >= 0''"

definition unresolved_tail :: failure where
  "unresolved_tail =
     AssertionFailed ''origToNewIds.find(currentEdge.tail) != origToNewIds.end()''"

definition unresolved_head :: failure where
  "unresolved_head =
     AssertionFailed ''origToNewIds.find(currentEdge.head) != origToNewIds.end()''"

definition negative_length :: failure where
  "negative_length = AssertionFailed ''currentEdge.length >= 0''"

definition nextEdge ::
  "(string \<Rightarrow> failure + int) \<Rightarrow> (string \<Rightarrow> failure + double) \<Rightarrow>
   CsvImporter \<Rightarrow> failure + (bool \<times> CsvImporter)" where
  "nextEdge lexicalCast_int lexicalCast_double im =
    (case edgeReader im of
       [] \<Rightarrow> Inr (False, im)
     | (t, h, lengthField, cap, speedField) # rest \<Rightarrow>
         if \<not> cap \<ge> 0 then Inl negative_capacity
         else (case lexicalCast_int speedField of
            Inl e \<Rightarrow> Inl e
          | Inr speed \<Rightarrow>
              if \<not> speed \<ge> 0 then Inl negative_speed
              else (case origToNewIds im t of
                 None \<Rightarrow> Inl unresolved_tail
               | Some t' \<Rightarrow>
                   (case origToNewIds im h of
                      None \<Rightarrow> Inl unresolved_head
                    | Some h' \<Rightarrow>
                        (case lexicalCast_double lengthField of
                           Inl e \<Rightarrow> Inl e
                         | Inr d \<Rightarrow>
                             (case double_to_int (std_round d) of
                                Inl e \<Rightarrow> Inl e
                              | Inr len \<Rightarrow>
                                  if \<not> len \<ge> 0 then Inl negative_length
                                  else Inr (True, im\<lparr>edgeReader := rest,
                                    currentEdge := Some \<lparr>tail = t', head = h', length' = len,
                                      capacity = cap, freeFlowSpeed = speed\<rparr>\<rparr>)))))))"

definition edgeTail :: "CsvImporter \<Rightarrow> failure + int" where
  "edgeTail im =
    (case currentEdge im of None \<Rightarrow> Inl (Undefined UninitializedRead) | Some e \<Rightarrow> Inr (tail e))"

definition edgeHead :: "CsvImporter \<Rightarrow> failure + int" where
  "edgeHead im =
    (case currentEdge im of None \<Rightarrow> Inl (Undefined UninitializedRead) | Some e \<Rightarrow> Inr (head e))"

text \<open>
  \<open>getValue\<close> for the two derived attributes. The result types
  \<open>CapacityAttribute::Type\<close> and \<open>TravelTimeAttribute::Type\<close> are declared in headers
  that are not among the sources: the conversion of the double returned by \<open>std::round\<close>
  to the result type is the parameter \<open>to_Type\<close>.
\<close>

definition getValue_CapacityAttribute ::
  "(double \<Rightarrow> failure + 'a) \<Rightarrow> CsvImporter \<Rightarrow> failure + 'a" where
  "getValue_CapacityAttribute to_Type im =
    (case currentEdge im of
       None \<Rightarrow> Inl (Undefined UninitializedRead)
     | Some e \<Rightarrow>
         to_Type (std_round (ddiv (dmul (Finite 1) (double_of_int (capacity e)))
                                  (double_of_int (analysisPeriod im)))))"

definition getValue_TravelTimeAttribute ::
  "(double \<Rightarrow> failure + 'a) \<Rightarrow> CsvImporter \<Rightarrow> failure + 'a" where
  "getValue_TravelTimeAttribute to_Type im =
    (case currentEdge im of
       None \<Rightarrow> Inl (Undefined UninitializedRead)
     | Some e \<Rightarrow>
         to_Type (std_round (ddiv (dmul (Finite 36) (double_of_int (length' e)))
                                  (double_of_int (freeFlowSpeed e)))))"

text \<open>
  The graph reads all vertices first: it calls \<open>nextVertex\<close> until it returns false.
\<close>

function importVertices :: "CsvImporter \<Rightarrow> failure + CsvImporter" where
  "importVertices im =
    (case nextVertex im of
       Inl e \<Rightarrow> Inl e
     | Inr (hasNext, im') \<Rightarrow> if hasNext then importVertices im' else Inr im')"
  by pat_completeness auto
termination
proof (relation "measure (\<lambda>im. length (vertexReader im))")
  show "wf (measure (\<lambda>im. length (vertexReader im)))"
    by simp
next
  fix im :: CsvImporter and r :: "bool \<times> CsvImporter" and hasNext im'
  assume "nextVertex im = Inr r" and "(hasNext, im') = r" and "hasNext"
  then have "nextVertex im = Inr (True, im')"
    by simp
  then have "vertexReader im = (fst (hd (vertexReader im)), snd (hd (vertexReader im))) # vertexReader im'"
    by (auto simp: nextVertex_def split: list.splits if_splits)
  then have "length (vertexReader im') < length (vertexReader im)"
    by (metis impossible_Cons linorder_not_le)
  then show "(im', im) \<in> measure (\<lambda>im. length (vertexReader im))"
    by simp
qed

declare importVertices.simps [simp del]

text \<open>The two assertions of \<open>nextEdge\<close> on the endpoints of the edge.\<close>

definition unresolved_endpoint :: "failure \<Rightarrow> bool" where
  "unresolved_endpoint e = (e = unresolved_tail \<or> e = unresolved_head)"

text \<open>
  For the examples: a lexical cast that reads an unsigned decimal number, as an \<open>int\<close>
  and as a \<open>double\<close>, and fails on any other text.
\<close>

definition is_digit :: "char \<Rightarrow> bool" where
  "is_digit c = (48 \<le> (of_char c :: nat) \<and> (of_char c :: nat) \<le> 57)"

definition decimal :: "string \<Rightarrow> nat" where
  "decimal s = foldl (\<lambda>n c. 10 * n + (of_char c - 48)) 0 s"

definition decimal_int :: "string \<Rightarrow> failure + int" where
  "decimal_int s =
    (if s \<noteq> [] \<and> list_all is_digit s then Inr (int (decimal s)) else Inl (Throw ''lexicalCast''))"

definition decimal_double :: "string \<Rightarrow> failure + double" where
  "decimal_double s =
    (if s \<noteq> [] \<and> list_all is_digit s then Inr (Finite (real (decimal s)))
     else Inl (Throw ''lexicalCast''))"

text \<open>
  The example network: the vertices 10, 11 and 12, the importer as constructed for them
  with an analysis period of one hour, and the importer after the three vertices are read.
\<close>

definition example_vertices :: "vertex_row list" where
  "example_vertices = [(10, Finite 0, Finite 0), (11, Finite 1, Finite 0), (12, Finite 2, Finite 0)]"

definition example_new :: "edge_row list \<Rightarrow> CsvImporter" where
  "example_new edges =
    \<lparr>vertexReader = example_vertices, edgeReader = edges, analysisPeriod = 1,
     origToNewIds = Map.empty, nextVertexId = 0, currentVertex = None, currentEdge = None\<rparr>"

definition example_read :: "edge_row list \<Rightarrow> CsvImporter" where
  "example_read edges =
    \<lparr>vertexReader = [], edgeReader = edges, analysisPeriod = 1,
     origToNewIds = [10 \<mapsto> 0, 11 \<mapsto> 1, 12 \<mapsto> 2], nextVertexId = 3,
     currentVertex = Some \<lparr>id' = 12, latLng = (Finite 2, Finite 0)\<rparr>, currentEdge = None\<rparr>"

text \<open>
  The importer of the example after it has read an edge from vertex 10 to vertex 11 with
  the given length, capacity and speed.
\<close>

definition example_edge :: "int \<Rightarrow> int \<Rightarrow> int \<Rightarrow> CsvImporter" where
  "example_edge len cap speed =
    (example_read [])\<lparr>currentEdge :=
       Some \<lparr>tail = 0, head = 1, length' = len, capacity = cap, freeFlowSpeed = speed\<rparr>\<rparr>"

text \<open>
  The start of an import: construct the importer, read all vertices, read the first edge.
\<close>

definition readFirstEdge ::
  "(string \<Rightarrow> failure + int) \<Rightarrow> (string \<Rightarrow> failure + double) \<Rightarrow>
   vertex_row list \<Rightarrow> edge_row list \<Rightarrow> double \<Rightarrow> failure + CsvImporter" where
  "readFirstEdge lexicalCast_int lexicalCast_double vertices edges period =
    (case new_CsvImporter vertices edges period of
       Inl e \<Rightarrow> Inl e
     | Inr im0 \<Rightarrow>
         (case importVertices im0 of
            Inl e \<Rightarrow> Inl e
          | Inr im \<Rightarrow>
              (case nextEdge lexicalCast_int lexicalCast_double im of
                 Inl e \<Rightarrow> Inl e
               | Inr (_, im') \<Rightarrow> Inr im')))"

section \<open>DrawNetwork: congestion levels\<close>

text \<open>
  The level of an edge is \<open>100 / 20 * flow / capacity\<close>, converted to \<open>size_t\<close>: the
  quotient \<open>100 / 20\<close> of two \<open>int\<close>s, times the flow, divided by the \<open>int\<close> capacity. The
  edge goes into the list \<open>min (level, REDS_9CLASS.size() - 2)\<close> of the
  \<open>REDS_9CLASS.size() - 1\<close> lists. The palette \<open>REDS_9CLASS\<close> is declared in a header that
  is not among the sources: its size is the parameter \<open>ncolors\<close>.
\<close>

definition congestion_level :: "double \<Rightarrow> int \<Rightarrow> failure + nat" where
  "congestion_level flow cap =
    double_to_size_t (ddiv (dmul (double_of_int (100 div 20)) flow) (double_of_int cap))"

definition congestion_band :: "nat \<Rightarrow> double \<Rightarrow> int \<Rightarrow> failure + nat" where
  "congestion_band ncolors flow cap =
    (case congestion_level flow cap of
       Inl e \<Rightarrow> Inl e
     | Inr level \<Rightarrow>
         if ncolors < 2 then Inl (Undefined OutOfBounds) else Inr (min level (ncolors - 2)))"

text \<open>
  For a finite flow \<open>f \<ge> 0\<close> and a capacity \<open>c > 0\<close>, the double that is converted to
  \<open>size_t\<close> is the following number, unless a result is an infinity.
\<close>

definition level_value :: "real \<Rightarrow> int \<Rightarrow> real" where
  "level_value f c = rnd (rnd (5 * f) / of_int c)"

section \<open>DrawNetwork: reading the flow patterns\<close>

text \<open>
  The flow file is a list of rows \<open>(iteration, edge_flow)\<close>, as \<open>read_row\<close> parses them.
  The loop of \<open>main\<close> keeps \<open>edgeFlows\<close>, \<open>iteration\<close> (not initialised before the
  first row is read, hence an option) and \<open>prevIteration\<close>. The size of \<open>edgeFlows\<close> is
  compared with a product of two \<open>int\<close>s, which is computed in \<open>int\<close>.
\<close>

definition flow_file_corrupt :: failure where
  "flow_file_corrupt = Throw ''flow file corrupt''"

type_synonym flow_row = "int \<times> double"

type_synonym flow_loop_state = "double list \<times> int option \<times> int"

fun readFlowRows :: "int \<Rightarrow> flow_row list \<Rightarrow> flow_loop_state \<Rightarrow> failure + flow_loop_state" where
  "readFlowRows numEdges [] st = Inr st"
| "readFlowRows numEdges ((iteration, flow) # rows) (edgeFlows, _, prevIteration) =
    (if iteration \<le> 0 \<or> dless flow (Finite 0) then Inl flow_file_corrupt
     else if iteration \<noteq> prevIteration then
       (case int_mul prevIteration numEdges of
          Inl e \<Rightarrow> Inl e
        | Inr p \<Rightarrow>
            if int (length edgeFlows) \<noteq> p then Inl flow_file_corrupt
            else if prevIteration = INT_MAX then Inl (Undefined SignedOverflow)
            else readFlowRows numEdges rows (edgeFlows @ [flow], Some iteration, prevIteration + 1))
     else readFlowRows numEdges rows (edgeFlows @ [flow], Some iteration, prevIteration))"

text \<open>
  The whole reading phase: the loop from \<open>prevIteration = 1\<close>, then the check of the
  total against \<open>iteration * numEdges\<close>. It returns the flows and the last iteration.
\<close>

definition readFlowFile :: "int \<Rightarrow> flow_row list \<Rightarrow> failure + (double list \<times> int)" where
  "readFlowFile numEdges rows =
    (case readFlowRows numEdges rows ([], None, 1) of
       Inl e \<Rightarrow> Inl e
     | Inr (edgeFlows, None, _) \<Rightarrow> Inl (Undefined UninitializedRead)
     | Inr (edgeFlows, Some iteration, _) \<Rightarrow>
         (case int_mul iteration numEdges of
            Inl e \<Rightarrow> Inl e
          | Inr p \<Rightarrow>
              if int (length edgeFlows) \<noteq> p then Inl flow_file_corrupt
              else Inr (edgeFlows, iteration)))"

section \<open>DrawNetwork: drawing the flow patterns\<close>

text \<open>
  The calls that \<open>main\<close> makes on the graphic, directly (\<open>newPage\<close>) or through the
  primitive drawer, in the order in which they are made.
\<close>

datatype ('c, 'p) command =
    NewPage
  | SetColor 'c
  | SetLineWidth double
  | DrawLine 'p 'p

text \<open>
  The graph is an external collaborator. It is given by what \<open>main\<close> asks of it: the
  edges that \<open>FORALL_EDGES\<close> enumerates, the pairs \<open>(u, e)\<close> that \<open>FORALL_VALID_EDGES\<close>
  enumerates, and the attributes of edges and vertices. The accessors carry the prefix
  \<open>graph\<close>, their names being taken by the importer.
\<close>

record 'l GraphT =
  allEdges :: "int list"
  validEdges :: "(int \<times> int) list"
  graph_edgeId :: "int \<Rightarrow> int"
  graph_capacity :: "int \<Rightarrow> int"
  graph_numLanes :: "int \<Rightarrow> int"
  graph_edgeHead :: "int \<Rightarrow> int"
  graph_roadGeometry :: "int \<Rightarrow> 'l list"
  graph_latLng :: "int \<Rightarrow> 'l"

text \<open>
  What the drawing loop reads and does not change: the palette \<open>REDS_9CLASS\<close>, the width
  \<open>LineWidth::THIN\<close> and the projection of a \<open>LatLng\<close> (all three declared outside the
  sources, hence parameters), the option \<open>-i\<close>, the number of edges counted when the
  graph was read, the graph, and the flows and the last iteration of the flow file.
\<close>

record ('l, 'p, 'c) flow_pass =
  REDS_9CLASS :: "'c list"
  THIN :: double
  webMercatorProjection :: "'l \<Rightarrow> 'p"
  drawIntermediates :: bool
  numEdges :: int
  graph :: "'l GraphT"
  edgeFlows :: "double list"
  iteration :: int

definition drawEdge ::
  "('l \<Rightarrow> 'p) \<Rightarrow> double \<Rightarrow> 'l GraphT \<Rightarrow> int \<Rightarrow> int \<Rightarrow> ('c, 'p) command list" where
  "drawEdge proj width g u e =
    SetLineWidth (dmul (double_of_int (graph_numLanes g e)) width) #
    (let v = graph_edgeHead g e; geometry = graph_roadGeometry g e
     in case geometry of
          [] \<Rightarrow> [DrawLine (proj (graph_latLng g u)) (proj (graph_latLng g v))]
        | front # _ \<Rightarrow>
            DrawLine (proj (graph_latLng g u)) (proj front) #
            map (\<lambda>i. DrawLine (proj (geometry ! (i - 1))) (proj (geometry ! i)))
              [1 ..< length geometry] @
            [DrawLine (proj (last geometry)) (proj (graph_latLng g v))])"

text \<open>
  The capacities are scaled by the analysis period before anything is drawn:
  \<open>max (round (period * capacity), 1.0)\<close>, converted back to \<open>int\<close>.
\<close>

definition std_max :: "double \<Rightarrow> double \<Rightarrow> double" where
  "std_max a b = (if dless a b then b else a)"

fun scaleCapacities :: "double \<Rightarrow> int list \<Rightarrow> 'l GraphT \<Rightarrow> failure + 'l GraphT" where
  "scaleCapacities period [] g = Inr g"
| "scaleCapacities period (e # es) g =
    (case double_to_int
            (std_max (std_round (dmul period (double_of_int (graph_capacity g e)))) (Finite 1)) of
       Inl err \<Rightarrow> Inl err
     | Inr c \<Rightarrow> scaleCapacities period es (g\<lparr>graph_capacity := (graph_capacity g)(e := c)\<rparr>))"

text \<open>
  One iteration: every valid edge is appended to the list of its band, read from
  \<open>edgeFlows\<close> at \<open>firstEdge + edgeId\<close>; then the lists are drawn, one colour each.
\<close>

definition edge_band :: "('l, 'p, 'c) flow_pass \<Rightarrow> int \<Rightarrow> int \<times> int \<Rightarrow> failure + nat" where
  "edge_band fp firstEdge ue =
    (let k = firstEdge + graph_edgeId (graph fp) (snd ue)
     in if k < 0 \<or> int (length (edgeFlows fp)) \<le> k then Inl (Undefined OutOfBounds)
        else congestion_band (length (REDS_9CLASS fp)) (edgeFlows fp ! nat k)
               (graph_capacity (graph fp) (snd ue)))"

fun classifyEdges ::
  "('l, 'p, 'c) flow_pass \<Rightarrow> int \<Rightarrow> (int \<times> int) list \<Rightarrow> (int \<times> int) list list \<Rightarrow>
   failure + (int \<times> int) list list" where
  "classifyEdges fp firstEdge [] congestionLevels = Inr congestionLevels"
| "classifyEdges fp firstEdge (ue # rest) congestionLevels =
    (case edge_band fp firstEdge ue of
       Inl err \<Rightarrow> Inl err
     | Inr b \<Rightarrow>
         if length congestionLevels \<le> b then Inl (Undefined OutOfBounds)
         else classifyEdges fp firstEdge rest
                (congestionLevels[b := congestionLevels ! b @ [ue]]))"

definition is_SetColor :: "('c, 'p) command \<Rightarrow> bool" where
  "is_SetColor c = (case c of SetColor _ \<Rightarrow> True | _ \<Rightarrow> False)"

definition drawLevels ::
  "('l, 'p, 'c) flow_pass \<Rightarrow> (int \<times> int) list list \<Rightarrow> ('c, 'p) command list" where
  "drawLevels fp congestionLevels =
    concat (map (\<lambda>j. SetColor (REDS_9CLASS fp ! (j + 1)) #
                       concat (map (\<lambda>(u, e). drawEdge (webMercatorProjection fp) (THIN fp)
                                               (graph fp) u e)
                                   (congestionLevels ! j)))
                [0 ..< length congestionLevels])"

definition drawIteration ::
  "('l, 'p, 'c) flow_pass \<Rightarrow> int \<Rightarrow> failure + ('c, 'p) command list" where
  "drawIteration fp firstEdge =
    (case classifyEdges fp firstEdge (validEdges (graph fp))
            (replicate (length (REDS_9CLASS fp) - 1) []) of
       Inl err \<Rightarrow> Inl err
     | Inr congestionLevels \<Rightarrow> Inr (drawLevels fp congestionLevels))"

text \<open>
  The loop over the iterations, from \<open>i = 1\<close> and \<open>firstEdge = 0\<close>. The result is the
  commands issued and, if the run did not get to the end, the failure that stopped it.
  After the body of an iteration, \<open>++i\<close> and \<open>firstEdge += numEdges\<close> are additions of
  \<open>int\<close>s, undefined on overflow (\<open>loop_step_overflows\<close>).
\<close>

definition loop_step_overflows :: "('l, 'p, 'c) flow_pass \<Rightarrow> int \<Rightarrow> int \<Rightarrow> bool" where
  "loop_step_overflows fp i firstEdge = (i = INT_MAX \<or> \<not> is_int (firstEdge + numEdges fp))"

definition new_page_before :: "int \<Rightarrow> ('c, 'p) command list" where
  "new_page_before i = (if i \<noteq> 1 then [NewPage] else [])"

function drawFlowPatterns ::
  "('l, 'p, 'c) flow_pass \<Rightarrow> int \<Rightarrow> int \<Rightarrow> ('c, 'p) command list \<times> failure option" where
  "drawFlowPatterns fp i firstEdge =
    (if i \<le> iteration fp then
       if \<not> (drawIntermediates fp \<or> i = 1 \<or> i = iteration fp)
       then
         if loop_step_overflows fp i firstEdge then ([], Some (Undefined SignedOverflow))
         else drawFlowPatterns fp (i + 1) (firstEdge + numEdges fp)
       else
         (case drawIteration fp firstEdge of
            Inl err \<Rightarrow> (new_page_before i, Some err)
          | Inr cmds \<Rightarrow>
              if loop_step_overflows fp i firstEdge
              then (new_page_before i @ cmds, Some (Undefined SignedOverflow))
              else
                (case drawFlowPatterns fp (i + 1) (firstEdge + numEdges fp) of
                   (rest, r) \<Rightarrow> (new_page_before i @ cmds @ rest, r)))
     else ([], None))"
  by pat_completeness auto
termination
  by (relation "measure (\<lambda>(fp, i, firstEdge). nat (iteration fp + 1 - i))") auto

declare drawFlowPatterns.simps [simp del]

text \<open>
  The flow mode of \<open>main\<close>, after the graphic is constructed: read the flow file, scale
  the capacities, draw. The first argument gives the palette, the width, the projection,
  the option, the number of edges and the graph; its flows and iteration are set here.
\<close>

definition drawFlowFile ::
  "('l, 'p, 'c) flow_pass \<Rightarrow> double \<Rightarrow> flow_row list \<Rightarrow> ('c, 'p) command list \<times> failure option" where
  "drawFlowFile fp period rows =
    (case readFlowFile (numEdges fp) rows of
       Inl err \<Rightarrow> ([], Some err)
     | Inr (flows, last_iteration) \<Rightarrow>
         (case scaleCapacities period (allEdges (graph fp)) (graph fp) of
            Inl err \<Rightarrow> ([], Some err)
          | Inr g \<Rightarrow>
              drawFlowPatterns
                (fp\<lparr>graph := g, edgeFlows := flows, iteration := last_iteration\<rparr>) 1 0))"




text \<open>
  The example for the flow mode: a graph of two edges with one lane and capacity 1 each,
  vertices and points written as numbers, a palette of nine colours written
  \<open>0, ..., 8\<close>, and a flow file of two iterations. In the second iteration the first edge
  carries one and a half times its capacity.
\<close>

definition example_graph :: "int GraphT" where
  "example_graph =
    \<lparr>allEdges = [0, 1], validEdges = [(0, 0), (1, 1)], graph_edgeId = (\<lambda>e. e),
     graph_capacity = (\<lambda>e. 1), graph_numLanes = (\<lambda>e. 1), graph_edgeHead = (\<lambda>e. e + 1),
     graph_roadGeometry = (\<lambda>e. []), graph_latLng = (\<lambda>v. v)\<rparr>"

definition example_pass :: "(int, int, nat) flow_pass" where
  "example_pass =
    \<lparr>REDS_9CLASS = [0, 1, 2, 3, 4, 5, 6, 7, 8], THIN = Finite 1,
     webMercatorProjection = (\<lambda>l. l), drawIntermediates = False, numEdges = 2,
     graph = example_graph, edgeFlows = [], iteration = 0\<rparr>"

definition example_flows :: "flow_row list" where
  "example_flows = [(1, Finite 1), (1, Finite 1), (2, Finite (3 / 2)), (2, Finite 1)]"

text \<open>
  The example after the flow file is read and the capacities are scaled by a period of
  one hour, and the commands of its two iterations.
\<close>

definition example_page1 :: "(nat, int) command list" where
  "example_page1 =
    [SetColor 1, SetColor 2, SetColor 3, SetColor 4, SetColor 5,
     SetColor 6, SetLineWidth (Finite 1), DrawLine 0 1, SetLineWidth (Finite 1), DrawLine 1 2,
     SetColor 7, SetColor 8]"

definition example_page2 :: "(nat, int) command list" where
  "example_page2 =
    [SetColor 1, SetColor 2, SetColor 3, SetColor 4, SetColor 5,
     SetColor 6, SetLineWidth (Finite 1), DrawLine 1 2,
     SetColor 7,
     SetColor 8, SetLineWidth (Finite 1), DrawLine 0 1]"

definition example_scaled :: "(int, int, nat) flow_pass" where
  "example_scaled =
    example_pass\<lparr>graph := example_graph\<lparr>graph_capacity := (\<lambda>e. 1)(0 := 1, 1 := 1)\<rparr>,
                  edgeFlows := [Finite 1, Finite 1, Finite (3 / 2), Finite 1], iteration := 2\<rparr>"

section \<open>Properties of the arithmetic on doubles\<close>

text \<open>
  Rounding is monotone, and it leaves every number \<open>m * 2 powi k\<close> with \<open>\<bar>m\<bar> < 2 ^ 53\<close>
  and \<open>k \<ge> - 1074\<close> as it is.
\<close>

lemma grid_step: "- 1074 < e \<Longrightarrow> a < 2 powi (e + 52) \<Longrightarrow> grid e a = grid (e - 1) a"
  using grid.simps[of e a] by simp

lemma grid_stop: "\<not> (- 1074 < e \<and> a < 2 powi (e + 52)) \<Longrightarrow> grid e a = e"
  by (metis grid.simps)

lemma grid_le: "grid e a \<le> e"
proof (induction e a rule: grid.induct)
  case (1 e a)
  then show ?case
    by (cases "- 1074 < e \<and> a < 2 powi (e + 52)") (simp_all add: grid_step grid_stop)
qed

lemma grid_ge: "- 1074 \<le> e \<Longrightarrow> - 1074 \<le> grid e a"
proof (induction e a rule: grid.induct)
  case (1 e a)
  then show ?case
    by (cases "- 1074 < e \<and> a < 2 powi (e + 52)") (simp_all add: grid_step grid_stop)
qed

lemma grid_lower: "- 1074 < grid e a \<Longrightarrow> 2 powi (grid e a + 52) \<le> a"
proof (induction e a rule: grid.induct)
  case (1 e a)
  show ?case
  proof (cases "- 1074 < e \<and> a < 2 powi (e + 52)")
    case True
    then have "grid e a = grid (e - 1) a" by (simp add: grid_step)
    with 1 True show ?thesis by simp
  next
    case False
    then have eq: "grid e a = e" by (simp add: grid_stop)
    with "1.prems" False show ?thesis by auto
  qed
qed

lemma grid_upper: "grid e a < e \<Longrightarrow> a < 2 powi (grid e a + 53)"
proof (induction e a rule: grid.induct)
  case (1 e a)
  show ?case
  proof (cases "- 1074 < e \<and> a < 2 powi (e + 52)")
    case True
    then have eq: "grid e a = grid (e - 1) a" by (simp add: grid_step)
    show ?thesis
    proof (cases "grid (e - 1) a < e - 1")
      case less: True
      with "1.IH"[OF True] eq show ?thesis by simp
    next
      case False
      with grid_le[of "e - 1" a] have "grid (e - 1) a = e - 1" by simp
      with eq have "e + 52 = grid e a + 53" by simp
      with True show ?thesis by metis
    qed
  next
    case False
    then have eq: "grid e a = e" by (simp add: grid_stop)
    with "1.prems" show ?thesis by simp
  qed
qed

lemma grid_mono: "a \<le> b \<Longrightarrow> grid e a \<le> grid e b"
proof (induction e a arbitrary: b rule: grid.induct)
  case (1 e a)
  show ?case
  proof (cases "- 1074 < e \<and> b < 2 powi (e + 52)")
    case True
    with "1.prems" have A: "- 1074 < e \<and> a < 2 powi (e + 52)" by simp
    then have "grid e a = grid (e - 1) a" by (simp add: grid_step)
    moreover from True have "grid e b = grid (e - 1) b" by (simp add: grid_step)
    ultimately show ?thesis using "1.IH"[OF A "1.prems"] by simp
  next
    case False
    then have "grid e b = e" by (simp add: grid_stop)
    with grid_le[of e a] show ?thesis by simp
  qed
qed

lemma round_even_of_int [simp]: "round_even (of_int n) = n"
  by (simp add: round_even_def)

lemma round_even_mono: "x \<le> y \<Longrightarrow> round_even x \<le> round_even y"
proof -
  assume xy: "x \<le> y"
  then have fl: "\<lfloor>x\<rfloor> \<le> \<lfloor>y\<rfloor>" by (rule floor_mono)
  have bx: "round_even x \<le> \<lfloor>x\<rfloor> + 1" and by': "\<lfloor>y\<rfloor> \<le> round_even y"
    by (auto simp: round_even_def Let_def)
  show ?thesis
  proof (cases "\<lfloor>x\<rfloor> < \<lfloor>y\<rfloor>")
    case True
    with bx by' show ?thesis by linarith
  next
    case False
    with fl have "\<lfloor>x\<rfloor> = \<lfloor>y\<rfloor>" by simp
    with xy show ?thesis by (auto simp: round_even_def Let_def)
  qed
qed

lemma two_powi_add: "(2::real) powi (a + b) = 2 powi a * 2 powi b"
  by (rule power_int_add) simp

lemma two_powi_mono: "a \<le> b \<Longrightarrow> (2::real) powi a \<le> 2 powi b"
  by (rule power_int_increasing) simp_all

lemma ulp_exponent_ge: "- 1074 \<le> ulp_exponent x"
  by (simp add: ulp_exponent_def grid_ge)

lemma ulp_exponent_le: "ulp_exponent x \<le> 971"
  by (simp add: ulp_exponent_def grid_le)

lemma rnd_nonneg: "0 \<le> x \<Longrightarrow> 0 \<le> rnd x"
proof -
  assume "0 \<le> x"
  then have "0 \<le> x / 2 powi ulp_exponent x" by simp
  then have "round_even 0 \<le> round_even (x / 2 powi ulp_exponent x)"
    by (rule round_even_mono)
  moreover have "round_even 0 = 0"
    using round_even_of_int[of 0] by simp
  ultimately show ?thesis by (simp add: rnd_def)
qed

lemma rnd_mono_nonneg:
  assumes "0 \<le> x" and "x \<le> y"
  shows "rnd x \<le> rnd y"
proof -
  let ?qx = "ulp_exponent x" and ?qy = "ulp_exponent y"
  from assms have ax: "\<bar>x\<bar> = x" and ay: "\<bar>y\<bar> = y" by simp_all
  from assms have le: "?qx \<le> ?qy"
    by (simp add: ulp_exponent_def grid_mono)
  show ?thesis
  proof (cases "?qx = ?qy")
    case True
    from assms(2) have "x / 2 powi ?qy \<le> y / 2 powi ?qy"
      by (simp add: divide_right_mono)
    then have "round_even (x / 2 powi ?qy) \<le> round_even (y / 2 powi ?qy)"
      by (rule round_even_mono)
    then have "real_of_int (round_even (x / 2 powi ?qy)) * 2 powi ?qy
        \<le> real_of_int (round_even (y / 2 powi ?qy)) * 2 powi ?qy"
      by (simp add: mult_right_mono)
    with True show ?thesis by (simp add: rnd_def)
  next
    case False
    with le have lt: "?qx < ?qy" by simp
    with ulp_exponent_ge[of x] have "- 1074 < grid 971 \<bar>y\<bar>"
      by (simp add: ulp_exponent_def)
    from grid_lower[OF this] ay have ylow: "2 powi (?qy + 52) \<le> y"
      by (simp add: ulp_exponent_def)
    from lt ulp_exponent_le[of y] have "grid 971 \<bar>x\<bar> < 971"
      by (simp add: ulp_exponent_def)
    from grid_upper[OF this] ax have xup: "x < 2 powi (?qx + 53)"
      by (simp add: ulp_exponent_def)
    have "x / 2 powi ?qx \<le> 2 powi 53"
    proof -
      from xup have "x < 2 powi ?qx * 2 powi 53" by (simp only: two_powi_add)
      then have "x / 2 powi ?qx < 2 powi 53"
        by (simp add: pos_divide_less_eq mult.commute)
      then show ?thesis by simp
    qed
    then have "round_even (x / 2 powi ?qx) \<le> round_even (2 powi 53)"
      by (rule round_even_mono)
    moreover have "round_even (2 powi 53) = 2 ^ 53"
      using round_even_of_int[of "2 ^ 53"] by simp
    ultimately have "real_of_int (round_even (x / 2 powi ?qx)) \<le> 2 powi 53"
      by (simp add: of_int_le_iff[symmetric] del: of_int_le_iff)
    then have "rnd x \<le> 2 powi 53 * 2 powi ?qx"
      by (simp add: rnd_def mult_right_mono)
    also have "\<dots> = 2 powi (?qx + 53)"
      by (simp only: two_powi_add mult.commute)
    also from lt have "\<dots> \<le> 2 powi (?qy + 52)"
      by (intro two_powi_mono) simp
    finally have A: "rnd x \<le> 2 powi (?qy + 52)" .
    have "2 powi 52 \<le> y / 2 powi ?qy"
    proof -
      from ylow have "2 powi ?qy * 2 powi 52 \<le> y" by (simp only: two_powi_add)
      then show ?thesis
        by (simp add: pos_le_divide_eq mult.commute)
    qed
    then have "round_even (2 powi 52) \<le> round_even (y / 2 powi ?qy)"
      by (rule round_even_mono)
    moreover have "round_even (2 powi 52) = 2 ^ 52"
      using round_even_of_int[of "2 ^ 52"] by simp
    ultimately have "2 powi 52 \<le> real_of_int (round_even (y / 2 powi ?qy))"
      by (simp add: of_int_le_iff[symmetric] del: of_int_le_iff)
    then have "2 powi 52 * 2 powi ?qy \<le> rnd y"
      by (simp add: rnd_def mult_right_mono)
    moreover have "2 powi 52 * 2 powi ?qy = (2::real) powi (?qy + 52)"
      by (simp only: two_powi_add mult.commute)
    ultimately have "2 powi (?qy + 52) \<le> rnd y" by simp
    with A show ?thesis by simp
  qed
qed

lemma rnd_exact:
  assumes m: "\<bar>m\<bar> < 2 ^ 53" and k: "- 1074 \<le> k"
  shows "rnd (of_int m * 2 powi k) = of_int m * 2 powi k"
proof -
  define x where "x = real_of_int m * 2 powi k"
  define q where "q = ulp_exponent x"
  have qk: "q \<le> k"
  proof (rule ccontr)
    assume "\<not> q \<le> k"
    then have kq: "k < q" by simp
    with k have "- 1074 < grid 971 \<bar>x\<bar>" by (simp add: ulp_exponent_def q_def)
    from grid_lower[OF this] have "2 powi (q + 52) \<le> \<bar>x\<bar>"
      by (simp add: ulp_exponent_def q_def)
    also have "\<bar>x\<bar> = real_of_int \<bar>m\<bar> * 2 powi k"
      by (simp add: abs_mult x_def)
    also have "\<dots> < 2 ^ 53 * 2 powi k"
    proof -
      from m have "real_of_int \<bar>m\<bar> < 2 ^ 53"
        by (metis of_int_less_iff of_int_numeral of_int_power)
      then show ?thesis by (simp add: mult_strict_right_mono)
    qed
    also have "\<dots> = 2 powi (k + 53)"
      using two_powi_add[of k 53] by simp
    finally have "(2::real) powi (q + 52) < 2 powi (k + 53)" .
    then have "q + 52 < k + 53"
      using two_powi_mono[of "k + 53" "q + 52"] by linarith
    with kq show False by simp
  qed
  define j where "j = nat (k - q)"
  with qk have kj: "k = q + int j" by simp
  have pk: "2 powi k = (2::real) powi q * 2 ^ j"
    by (subst kj, subst two_powi_add) simp
  have "x / 2 powi q = real_of_int (m * 2 ^ j)"
    by (simp add: x_def pk)
  then have "round_even (x / 2 powi q) = m * 2 ^ j"
    by (simp only: round_even_of_int)
  then have "rnd x = real_of_int (m * 2 ^ j) * 2 powi q"
    by (simp add: rnd_def q_def)
  also have "\<dots> = real_of_int m * (2 powi q * 2 ^ j)" by simp
  also have "\<dots> = x"
    by (simp only: x_def pk)
  finally show ?thesis by (simp only: x_def)
qed

lemma rnd_of_int: "\<bar>m\<bar> < 2 ^ 53 \<Longrightarrow> rnd (of_int m) = of_int m"
  using rnd_exact[of m 0] by simp

text \<open>
  The quotient of two integers below \<open>2 ^ 50\<close>, rounded to a double, rounds to the same
  integer as the exact quotient: the quotient \<open>a / b\<close> is at least \<open>1 / (2 * b)\<close> below
  \<open>r + 1 / 2\<close>, and a double lies in between.
\<close>

lemma pow2_between:
  fixes b :: int
  assumes "0 < b"
  shows "\<exists>j::nat. 0 < j \<and> 2 * b \<le> 2 ^ j \<and> (2::int) ^ j < 4 * b"
proof -
  have "2 \<le> nat (2 * b)" using assms by simp
  from ex_power_ivl2[OF order_refl this]
  obtain n where n: "2 ^ n < nat (2 * b)" "nat (2 * b) \<le> 2 ^ (n + 1)" by blast
  from n(1) have "int (2 ^ n) < 2 * b" by linarith
  then have a: "(2::int) ^ n < 2 * b" by simp
  from n(2) have "2 * b \<le> int (2 ^ (n + 1))" by linarith
  then have b: "2 * b \<le> (2::int) ^ (n + 1)" by simp
  from a have "(2::int) ^ (n + 1) < 4 * b" by simp
  with b show ?thesis by (intro exI[of _ "n + 1"]) simp
qed

lemma rnd_quotient:
  fixes a b :: int
  assumes a: "0 \<le> a" "a < 2 ^ 50" and b: "0 < b" "b < 2 ^ 50"
  defines "q \<equiv> real_of_int a / real_of_int b"
  shows "round_half_away (rnd q) = round_half_away q" and "rnd q < 2 ^ 1024"
proof -
  define r where "r = \<lfloor>q + 1 / 2\<rfloor>"
  have q0: "0 \<le> q" using a b by (simp add: q_def)
  have rq: "round_half_away q = r" using q0 by (simp add: round_half_away_def r_def)
  have r0: "0 \<le> r" using q0 by (simp add: r_def)
  have rb: "real_of_int b > 0" using b by simp
  \<comment> \<open>the quotient lies between \<open>r - 1/2\<close> and \<open>r + 1/2\<close>, as integers\<close>
  have "real_of_int r \<le> q + 1 / 2" by (simp add: r_def)
  then have "real_of_int r * real_of_int b \<le> (q + 1 / 2) * real_of_int b"
    using rb by (simp add: mult_right_mono)
  also have "\<dots> = real_of_int a + real_of_int b / 2"
    using rb by (simp add: q_def field_simps)
  finally have "real_of_int (2 * r * b) \<le> real_of_int (2 * a + b)" by simp
  then have lo_int: "2 * r * b \<le> 2 * a + b" by (simp only: of_int_le_iff)
  have "q + 1 / 2 < real_of_int r + 1" by (simp add: r_def)
  then have "(q + 1 / 2) * real_of_int b < (real_of_int r + 1) * real_of_int b"
    using rb by (simp add: mult_strict_right_mono)
  moreover have "(q + 1 / 2) * real_of_int b = real_of_int a + real_of_int b / 2"
    using rb by (simp add: q_def field_simps)
  ultimately have "real_of_int (2 * a + b) < real_of_int (2 * (r + 1) * b)"
    by (simp add: algebra_simps)
  then have "2 * a + b < 2 * (r + 1) * b" by (simp only: of_int_less_iff)
  then have hi_int: "2 * a + 1 \<le> (2 * r + 1) * b" by (simp add: algebra_simps)
  \<comment> \<open>lower bound\<close>
  have lower: "real_of_int r - 1 / 2 \<le> rnd q"
  proof (cases "r = 0")
    case True
    with rnd_nonneg[OF q0] show ?thesis by simp
  next
    case False
    with r0 have r1: "1 \<le> r" by simp
    from lo_int b r1 have "2 * r * b \<le> 2 * a + b" by simp
    have "r * b \<le> a + b" using lo_int b by (simp add: algebra_simps)
    moreover have "r * 1 \<le> r * b" using r0 b by (intro mult_left_mono) simp_all
    ultimately have "r \<le> a + b" by simp
    with a b have "\<bar>2 * r - 1\<bar> < 2 ^ 53" using r1 by simp
    from rnd_exact[OF this, of "- 1"]
    have ex: "rnd (real_of_int r - 1 / 2) = real_of_int r - 1 / 2"
      by (simp add: field_simps)
    have "real_of_int r - 1 / 2 \<le> q"
      using \<open>real_of_int r \<le> q + 1 / 2\<close> by simp
    moreover have "0 \<le> real_of_int r - 1 / 2" using r1 by simp
    ultimately have "rnd (real_of_int r - 1 / 2) \<le> rnd q"
      by (intro rnd_mono_nonneg)
    with ex show ?thesis by simp
  qed
  \<comment> \<open>upper bound: a double between the quotient and \<open>r + 1/2\<close>\<close>
  from pow2_between[OF b(1)] obtain j :: nat where
    j: "0 < j" "2 * b \<le> 2 ^ j" "(2::int) ^ j < 4 * b" by blast
  define m where "m = (2 * r + 1) * 2 ^ (j - 1) - 1"
  define y where "y = real_of_int m * 2 powi (- int j)"
  from j(1) have pj: "(2::int) ^ j = 2 * 2 ^ (j - 1)"
    by (cases j) simp_all
  with j(3) have pj1: "(2::int) ^ (j - 1) < 2 * b" by simp
  have yval: "y = real_of_int r + 1 / 2 - 1 / 2 ^ j"
  proof -
    from j(1) have pjr: "(2::real) ^ j = 2 * 2 ^ (j - 1)"
      by (cases j) simp_all
    have "real_of_int m = (real_of_int r + 1 / 2) * 2 ^ j - 1"
      by (simp add: m_def pjr algebra_simps)
    then show ?thesis
      by (simp add: y_def power_int_minus field_simps)
  qed
  have m0: "0 \<le> m"
  proof -
    have "1 \<le> (2 * r + 1) * 1" using r0 by simp
    also have "\<dots> \<le> (2 * r + 1) * 2 ^ (j - 1)"
      using r0 by (intro mult_left_mono) simp_all
    finally show ?thesis by (simp add: m_def)
  qed
  have mb: "m < 2 ^ 53"
  proof -
    have "(2 * r + 1) * 2 ^ (j - 1) \<le> (2 * r + 1) * (2 * b)"
      using r0 pj1 by (intro mult_left_mono) simp_all
    also have "\<dots> = 2 * (2 * r * b + b)" by (simp add: algebra_simps)
    also have "\<dots> \<le> 2 * (2 * a + b + b)" using lo_int by simp
    finally have "m < 4 * a + 4 * b" by (simp add: m_def)
    with a b show ?thesis by simp
  qed
  have jb: "- 1074 \<le> - int j"
  proof -
    have "(2::int) ^ (j - 1) < 2 ^ 51" using pj1 b by simp
    then have "j - 1 < 51"
      using power_increasing[of 51 "j - 1" "2::int"] by (cases "j - 1 < 51") simp_all
    then show ?thesis by simp
  qed
  from m0 mb have "\<bar>m\<bar> < 2 ^ 53" by simp
  from rnd_exact[OF this jb] have yex: "rnd y = y" by (simp add: y_def)
  have qy: "q \<le> y"
  proof -
    have "real_of_int (2 * a + 1) \<le> real_of_int ((2 * r + 1) * b)"
      using hi_int by (simp only: of_int_le_iff)
    then have "real_of_int a + 1 / 2 \<le> (real_of_int r + 1 / 2) * real_of_int b"
      by (simp add: algebra_simps)
    then have "(real_of_int a + 1 / 2) / real_of_int b \<le> real_of_int r + 1 / 2"
      using rb by (simp add: pos_divide_le_eq)
    then have "q + 1 / (2 * real_of_int b) \<le> real_of_int r + 1 / 2"
      by (simp add: q_def add_divide_distrib)
    moreover have "1 / 2 ^ j \<le> 1 / (2 * real_of_int b)"
    proof -
      have "real_of_int (2 * b) \<le> real_of_int (2 ^ j)"
        using j(2) by (simp only: of_int_le_iff)
      then have "2 * real_of_int b \<le> 2 ^ j" by simp
      with rb show ?thesis by (intro divide_left_mono) simp_all
    qed
    ultimately show ?thesis by (simp add: yval)
  qed
  from rnd_mono_nonneg[OF q0 qy] yex have up: "rnd q \<le> y" by simp
  have ylt: "y < real_of_int r + 1 / 2" by (simp add: yval)
  from up ylt have upper: "rnd q < real_of_int r + 1 / 2" by simp
  from lower upper have "\<lfloor>rnd q + 1 / 2\<rfloor> = r"
    by (intro floor_unique) simp_all
  with rnd_nonneg[OF q0] rq show "round_half_away (rnd q) = round_half_away q"
    by (simp add: round_half_away_def)
  have "r * b \<le> a + b" using lo_int b by (simp add: algebra_simps)
  moreover have "r * 1 \<le> r * b" using r0 b by (intro mult_left_mono) simp_all
  ultimately have "r \<le> a + b" by simp
  with a b have "r < 2 ^ 52" by simp
  then have "real_of_int r < 2 ^ 52"
    by (metis of_int_less_iff of_int_numeral of_int_power)
  with upper have "rnd q < 2 ^ 52 + 1 / 2" by simp
  also have "\<dots> < (2::real) ^ 1024" by simp
  finally show "rnd q < 2 ^ 1024" .
qed

lemma binary64_finite: "\<bar>rnd x\<bar> < 2 ^ 1024 \<Longrightarrow> binary64 x = Finite (rnd x)"
  by (auto simp: binary64_def Let_def)

lemma binary64_of_int: "\<bar>i\<bar> < 2 ^ 53 \<Longrightarrow> binary64 (of_int i) = Finite (of_int i)"
proof -
  assume i: "\<bar>i\<bar> < 2 ^ 53"
  then have r: "rnd (of_int i) = of_int i" by (rule rnd_of_int)
  from i have "real_of_int \<bar>i\<bar> < 2 ^ 53"
    by (metis of_int_less_iff of_int_numeral of_int_power)
  also have "\<dots> < (2::real) ^ 1024" by simp
  finally have "\<bar>rnd (of_int i)\<bar> < 2 ^ 1024" using r by simp
  from binary64_finite[OF this] r show ?thesis by simp
qed

lemma double_of_int_exact: "\<bar>i\<bar> < 2 ^ 53 \<Longrightarrow> double_of_int i = Finite (of_int i)"
  by (simp add: double_of_int_def binary64_of_int)

lemma is_int_abs: "is_int v \<Longrightarrow> \<bar>v\<bar> \<le> 2 ^ 31"
  by (auto simp: is_int_def INT_MIN_def INT_MAX_def abs_le_iff)

lemma double_of_int_is_int: "is_int v \<Longrightarrow> double_of_int v = Finite (of_int v)"
  using is_int_abs[of v] by (intro double_of_int_exact) simp

lemma round_half_away_nonneg: "0 \<le> x \<Longrightarrow> round_half_away x = round x"
  by (simp add: round_half_away_def round_def)

lemma binary64_quotient:
  fixes a b :: int
  assumes "0 \<le> a" "a < 2 ^ 50" "0 < b" "b < 2 ^ 50"
  shows "std_round (binary64 (real_of_int a / real_of_int b))
         = Finite (of_int (round (real_of_int a / real_of_int b)))"
proof -
  let ?q = "real_of_int a / real_of_int b"
  from assms have q0: "0 \<le> ?q" by simp
  from rnd_quotient[OF assms] have
    r: "round_half_away (rnd ?q) = round_half_away ?q" and lt: "rnd ?q < 2 ^ 1024"
    by simp_all
  from rnd_nonneg[OF q0] lt have "\<bar>rnd ?q\<bar> < 2 ^ 1024" by simp
  from binary64_finite[OF this] have "std_round (binary64 ?q) = Finite (of_int (round_half_away (rnd ?q)))"
    by simp
  with r round_half_away_nonneg[OF q0] show ?thesis by simp
qed

lemma travel_time_double:
  assumes L: "0 \<le> L" "is_int L" and S: "0 < S" "is_int S"
  shows "std_round (ddiv (dmul (Finite 36) (double_of_int L)) (double_of_int S))
         = Finite (of_int (round (36 * real_of_int L / real_of_int S)))"
proof -
  from is_int_abs[OF L(2)] is_int_abs[OF S(2)]
  have bL: "\<bar>L\<bar> \<le> 2 ^ 31" and bS: "\<bar>S\<bar> \<le> 2 ^ 31" .
  from bL have "\<bar>36 * L\<bar> < 2 ^ 53" by simp
  from binary64_of_int[OF this] have m: "dmul (Finite 36) (double_of_int L) = Finite (of_int (36 * L))"
    using double_of_int_is_int[OF L(2)] by simp
  have "0 \<le> 36 * L" "36 * L < 2 ^ 50" "S < 2 ^ 50"
    using L(1) bL bS by simp_all
  from binary64_quotient[OF this(1,2) S(1) this(3)] S(1)
  have "std_round (ddiv (Finite (of_int (36 * L))) (Finite (of_int S)))
     = Finite (of_int (round (real_of_int (36 * L) / real_of_int S)))"
    by simp
  with m double_of_int_is_int[OF S(2)] show ?thesis by simp
qed

section \<open>Properties of the importer\<close>

lemma nextVertex_more:
  assumes "nextVertex im = Inr (True, im')"
  shows "\<exists>vid x y. vertexReader im = (vid, x, y) # vertexReader im'
           \<and> origToNewIds im vid = None
           \<and> origToNewIds im' = (origToNewIds im)(vid \<mapsto> nextVertexId im)
           \<and> nextVertexId im' = nextVertexId im + 1"
  using assms by (auto simp: nextVertex_def split: list.splits if_splits)

lemma nextVertex_done:
  assumes "nextVertex im = Inr (False, im')"
  shows "im' = im \<and> vertexReader im = []"
  using assms by (auto simp: nextVertex_def split: list.splits if_splits)

lemma importVertices_run:
  "importVertices im = Inr im' \<Longrightarrow>
     nextVertexId im' = nextVertexId im + int (length (vertexReader im))
     \<and> distinct (map fst (vertexReader im))
     \<and> fst ` set (vertexReader im) \<inter> dom (origToNewIds im) = {}
     \<and> (\<forall>k < length (vertexReader im).
           origToNewIds im' (fst (vertexReader im ! k)) = Some (nextVertexId im + int k))
     \<and> (\<forall>v. v \<notin> fst ` set (vertexReader im) \<longrightarrow> origToNewIds im' v = origToNewIds im v)"
proof (induction im rule: importVertices.induct)
  case (1 im)
  show ?case
  proof (cases "nextVertex im")
    case (Inl e)
    with "1.prems" show ?thesis by (simp add: importVertices.simps[of im])
  next
    case (Inr r)
    obtain hasNext im1 where r: "r = (hasNext, im1)" by (cases r)
    show ?thesis
    proof (cases hasNext)
      case False
      with Inr r "1.prems" have "im' = im1" by (simp add: importVertices.simps[of im])
      moreover from Inr r False have "im1 = im \<and> vertexReader im = []"
        using nextVertex_done by simp
      ultimately show ?thesis by simp
    next
      case True
      with Inr r "1.prems" have run: "importVertices im1 = Inr im'"
        by (simp add: importVertices.simps[of im])
      from Inr r True have "nextVertex im = Inr (True, im1)" by simp
      from nextVertex_more[OF this] obtain vid x y where
        rd: "vertexReader im = (vid, x, y) # vertexReader im1" and
        fresh: "origToNewIds im vid = None" and
        m1: "origToNewIds im1 = (origToNewIds im)(vid \<mapsto> nextVertexId im)" and
        n1: "nextVertexId im1 = nextVertexId im + 1"
        by blast
      from "1.IH"[OF Inr r[symmetric] True run]
      have ih: "nextVertexId im' = nextVertexId im1 + int (length (vertexReader im1))"
        "distinct (map fst (vertexReader im1))"
        "fst ` set (vertexReader im1) \<inter> dom (origToNewIds im1) = {}"
        "\<forall>k < length (vertexReader im1).
           origToNewIds im' (fst (vertexReader im1 ! k)) = Some (nextVertexId im1 + int k)"
        "\<forall>v. v \<notin> fst ` set (vertexReader im1) \<longrightarrow> origToNewIds im' v = origToNewIds im1 v"
        by blast+
      have notin: "vid \<notin> fst ` set (vertexReader im1)"
        using ih(3) m1 by auto
      have a: "nextVertexId im' = nextVertexId im + int (length (vertexReader im))"
        using ih(1) n1 rd by simp
      have b: "distinct (map fst (vertexReader im))"
        using ih(2) notin rd by simp
      have c: "fst ` set (vertexReader im) \<inter> dom (origToNewIds im) = {}"
        using ih(3) m1 fresh rd by auto
      have d: "\<forall>k < length (vertexReader im).
           origToNewIds im' (fst (vertexReader im ! k)) = Some (nextVertexId im + int k)"
      proof (intro allI impI)
        fix k assume k: "k < length (vertexReader im)"
        show "origToNewIds im' (fst (vertexReader im ! k)) = Some (nextVertexId im + int k)"
        proof (cases k)
          case 0
          then show ?thesis using ih(5) notin m1 rd by simp
        next
          case (Suc j)
          then show ?thesis using ih(4) k n1 rd by simp
        qed
      qed
      have e: "\<forall>v. v \<notin> fst ` set (vertexReader im) \<longrightarrow> origToNewIds im' v = origToNewIds im v"
        using ih(5) m1 rd by auto
      from a b c d e show ?thesis by blast
    qed
  qed
qed

lemma new_CsvImporter_fields:
  assumes "new_CsvImporter vertices edges period = Inr im0"
  shows "vertexReader im0 = vertices \<and> edgeReader im0 = edges
         \<and> origToNewIds im0 = Map.empty \<and> nextVertexId im0 = 0"
  using assms by (auto simp: new_CsvImporter_def split: sum.splits if_splits)

lemma importVertices_edgeReader:
  "importVertices im = Inr im' \<Longrightarrow> edgeReader im' = edgeReader im"
proof (induction im rule: importVertices.induct)
  case (1 im)
  show ?case
  proof (cases "nextVertex im")
    case (Inl e)
    with "1.prems" show ?thesis by (simp add: importVertices.simps[of im])
  next
    case (Inr r)
    obtain hasNext im1 where r: "r = (hasNext, im1)" by (cases r)
    show ?thesis
    proof (cases hasNext)
      case False
      with Inr r "1.prems" have "im' = im1" by (simp add: importVertices.simps[of im])
      moreover from Inr r False have "im1 = im"
        using nextVertex_done by simp
      ultimately show ?thesis by simp
    next
      case True
      with Inr r "1.prems" have run: "importVertices im1 = Inr im'"
        by (simp add: importVertices.simps[of im])
      from Inr r True have "edgeReader im1 = edgeReader im"
        by (auto simp: nextVertex_def split: list.splits if_splits)
      with "1.IH"[OF Inr r[symmetric] True run] show ?thesis by simp
    qed
  qed
qed

lemma importVertices_ids:
  assumes new: "new_CsvImporter vertices edges period = Inr im0"
    and run: "importVertices im0 = Inr im"
  shows "dom (origToNewIds im) = fst ` set vertices"
    and "ran (origToNewIds im) = {0 ..< int (length vertices)}"
    and "distinct (map fst vertices)"
    and "\<forall>k < length vertices. origToNewIds im (fst (vertices ! k)) = Some (int k)"
    and "nextVertexId im = int (length vertices)"
proof -
  let ?m = "origToNewIds im" and ?n = "length vertices"
  from new_CsvImporter_fields[OF new] have
    f: "vertexReader im0 = vertices" "origToNewIds im0 = Map.empty" "nextVertexId im0 = 0"
    by simp_all
  from importVertices_run[OF run] f have
    cnt: "nextVertexId im = int ?n" and
    dist: "distinct (map fst vertices)" and
    pos: "\<forall>k < ?n. ?m (fst (vertices ! k)) = Some (int k)" and
    rest: "\<forall>v. v \<notin> fst ` set vertices \<longrightarrow> ?m v = None"
    by simp_all
  have dom: "dom ?m = fst ` set vertices"
  proof
    show "dom ?m \<subseteq> fst ` set vertices"
      using rest by auto
    show "fst ` set vertices \<subseteq> dom ?m"
    proof
      fix v assume "v \<in> fst ` set vertices"
      then obtain k where "k < ?n" "v = fst (vertices ! k)"
        by (auto simp: in_set_conv_nth)
      with pos show "v \<in> dom ?m" by auto
    qed
  qed
  have ran: "ran ?m = {0 ..< int ?n}"
  proof
    show "ran ?m \<subseteq> {0 ..< int ?n}"
    proof
      fix i assume "i \<in> ran ?m"
      then obtain v where v: "?m v = Some i" by (auto simp: ran_def)
      then have "v \<in> fst ` set vertices" using dom by auto
      then obtain k where "k < ?n" "v = fst (vertices ! k)"
        by (auto simp: in_set_conv_nth)
      with pos v show "i \<in> {0 ..< int ?n}" by auto
    qed
    show "{0 ..< int ?n} \<subseteq> ran ?m"
    proof
      fix i assume "i \<in> {0 ..< int ?n}"
      then have "nat i < ?n" "int (nat i) = i" by auto
      with pos have "?m (fst (vertices ! nat i)) = Some i" by metis
      then show "i \<in> ran ?m" by (auto simp: ran_def)
    qed
  qed
  from dom ran dist pos cnt
  show "dom ?m = fst ` set vertices" and "ran ?m = {0 ..< int ?n}" and "distinct (map fst vertices)"
    and "\<forall>k < ?n. ?m (fst (vertices ! k)) = Some (int k)" and "nextVertexId im = int ?n"
    by blast+
qed

text \<open>
  Claim C1. When an importer has been constructed and \<open>nextVertex\<close> has been called
  until it returned false, without a failure: the internal IDs assigned are exactly
  \<open>0, ..., n - 1\<close> for the \<open>n\<close> vertex rows read, in the order of the rows; the map from
  external to internal IDs is a bijection between the external IDs read and that range,
  and no external ID occurs twice; and every successful call of \<open>nextVertex\<close> leaves
  \<open>nextVertexId\<close> strictly greater than it found it.
\<close>

theorem importVertices_dense_ids:
  "new_CsvImporter vertices edges period = Inr im0 \<Longrightarrow> importVertices im0 = Inr im \<Longrightarrow>
     bij_betw (\<lambda>v. the (origToNewIds im v)) (fst ` set vertices) {0 ..< int (length vertices)}
     \<and> dom (origToNewIds im) = fst ` set vertices
     \<and> ran (origToNewIds im) = {0 ..< int (length vertices)}
     \<and> distinct (map fst vertices)
     \<and> (\<forall>k < length vertices. origToNewIds im (fst (vertices ! k)) = Some (int k))
     \<and> nextVertexId im = int (length vertices)
     \<and> (\<forall>a b. nextVertex a = Inr (True, b) \<longrightarrow> nextVertexId a < nextVertexId b)"
proof -
  assume new: "new_CsvImporter vertices edges period = Inr im0"
    and run: "importVertices im0 = Inr im"
  let ?m = "origToNewIds im" and ?n = "length vertices"
  note ids = importVertices_ids[OF new run]
  have pos: "\<forall>k < ?n. ?m (fst (vertices ! k)) = Some (int k)"
    by (rule ids(4))
  have inj: "inj_on (\<lambda>v. the (?m v)) (fst ` set vertices)"
  proof (rule inj_onI)
    fix v w
    assume "v \<in> fst ` set vertices" "w \<in> fst ` set vertices" and eq: "the (?m v) = the (?m w)"
    then obtain k l where k: "k < ?n" "v = fst (vertices ! k)" and l: "l < ?n" "w = fst (vertices ! l)"
      by (auto simp: in_set_conv_nth)
    with pos eq have "k = l" by simp
    with k l show "v = w" by simp
  qed
  have img: "(\<lambda>v. the (?m v)) ` (fst ` set vertices) = {0 ..< int ?n}"
  proof -
    have "(\<lambda>v. the (?m v)) ` dom ?m = ran ?m"
      by (force simp: ran_def dom_def image_iff)
    with ids(1,2) show ?thesis by simp
  qed
  have step: "\<forall>a b. nextVertex a = Inr (True, b) \<longrightarrow> nextVertexId a < nextVertexId b"
    using nextVertex_more by fastforce
  from inj img have "bij_betw (\<lambda>v. the (?m v)) (fst ` set vertices) {0 ..< int ?n}"
    by (simp add: bij_betw_def)
  with ids step show ?thesis by blast
qed

lemma example_new: "new_CsvImporter example_vertices edges (Finite 1) = Inr (example_new edges)"
  by (simp add: new_CsvImporter_def example_new_def trunc_zero_def is_int_def
      INT_MIN_def INT_MAX_def)

lemma example_read: "importVertices (example_new edges) = Inr (example_read edges)"
  by (simp add: example_new_def example_read_def example_vertices_def importVertices.simps
      nextVertex_def INT_MAX_def)

theorem importVertices_dense_ids_witness:
  "new_CsvImporter example_vertices [] (Finite 1) = Inr (example_new [])
   \<and> importVertices (example_new []) = Inr (example_read [])
   \<and> ran (origToNewIds (example_read [])) = {0 ..< 3}
   \<and> bij_betw (\<lambda>v. the (origToNewIds (example_read []) v)) {10, 11, 12} {0 ..< 3}
   \<and> nextVertexId (example_read []) = 3"
  using importVertices_dense_ids[OF example_new example_read, of "[]"] example_new example_read
  by (simp add: example_vertices_def)

lemma decimal_examples:
  "decimal_int ''50'' = Inr 50" "decimal_double ''1000'' = Inr (Finite 1000)"
  "decimal_int ''30'' = Inr 30" "decimal_double ''500'' = Inr (Finite 500)"
  by (simp_all add: decimal_int_def decimal_double_def decimal_def is_digit_def)

text \<open>
  Claim C7, as amended. Take an importer that has read all its vertices, and the next edge
  row. If the tail or the head of the row is not the external ID of a vertex read, then
  \<open>nextEdge\<close> fails; the failure is one of the two endpoint assertions when the capacity
  is not negative and the speed field is parsed to a number that is not negative (these
  two are checked before the endpoints). If both are external IDs read, then whenever
  \<open>nextEdge\<close> returns, the current edge holds the internal IDs of the two, both in
  \<open>[0, n)\<close>; and it does return when the capacity, the speed and the length pass their
  checks.
\<close>

theorem nextEdge_endpoints:
  assumes new: "new_CsvImporter vertices ((t, h, lengthField, cap, speedField) # rest) period = Inr im0"
    and run: "importVertices im0 = Inr im"
  shows "(t \<notin> fst ` set vertices \<or> h \<notin> fst ` set vertices \<longrightarrow>
            isl (nextEdge lexicalCast_int lexicalCast_double im)
            \<and> (0 \<le> cap \<and> (\<exists>speed \<ge> 0. lexicalCast_int speedField = Inr speed) \<longrightarrow>
                 (\<exists>e. nextEdge lexicalCast_int lexicalCast_double im = Inl e \<and> unresolved_endpoint e)))
       \<and> (t \<in> fst ` set vertices \<and> h \<in> fst ` set vertices \<longrightarrow>
            (\<forall>r. nextEdge lexicalCast_int lexicalCast_double im = Inr r \<longrightarrow>
               (\<exists>e. r = (True, im\<lparr>edgeReader := rest, currentEdge := Some e\<rparr>)
                  \<and> origToNewIds im t = Some (tail e) \<and> origToNewIds im h = Some (head e)
                  \<and> 0 \<le> tail e \<and> tail e < int (length vertices)
                  \<and> 0 \<le> head e \<and> head e < int (length vertices)))
            \<and> (0 \<le> cap \<and> (\<exists>speed \<ge> 0. lexicalCast_int speedField = Inr speed)
                 \<and> (\<exists>d len. lexicalCast_double lengthField = Inr d
                       \<and> double_to_int (std_round d) = Inr len \<and> 0 \<le> len) \<longrightarrow>
                 (\<exists>r. nextEdge lexicalCast_int lexicalCast_double im = Inr r)))"
proof -
  let ?V = "fst ` set vertices" and ?ne = "nextEdge lexicalCast_int lexicalCast_double im"
  from importVertices_ids[OF new run] have
    dom: "dom (origToNewIds im) = ?V" and ran: "ran (origToNewIds im) = {0 ..< int (length vertices)}"
    by blast+
  from new_CsvImporter_fields[OF new] importVertices_edgeReader[OF run]
  have er: "edgeReader im = (t, h, lengthField, cap, speedField) # rest" by simp
  have A: "isl ?ne" if "t \<notin> ?V \<or> h \<notin> ?V"
  proof -
    from that dom have "origToNewIds im t = None \<or> origToNewIds im h = None" by auto
    then show ?thesis
      by (auto simp: nextEdge_def er split: sum.splits option.splits)
  qed
  have B: "\<exists>e. ?ne = Inl e \<and> unresolved_endpoint e"
    if "t \<notin> ?V \<or> h \<notin> ?V" "0 \<le> cap" "\<exists>speed \<ge> 0. lexicalCast_int speedField = Inr speed"
  proof -
    from that dom have "origToNewIds im t = None \<or> origToNewIds im h = None" by auto
    with that(2,3) show ?thesis
      by (auto simp: nextEdge_def er unresolved_endpoint_def split: sum.splits option.splits)
  qed
  have C: "\<exists>e. r = (True, im\<lparr>edgeReader := rest, currentEdge := Some e\<rparr>)
                  \<and> origToNewIds im t = Some (tail e) \<and> origToNewIds im h = Some (head e)
                  \<and> 0 \<le> tail e \<and> tail e < int (length vertices)
                  \<and> 0 \<le> head e \<and> head e < int (length vertices)"
    if "?ne = Inr r" for r
  proof -
    from that obtain t' h' len speed where
      t': "origToNewIds im t = Some t'" and h': "origToNewIds im h = Some h'" and
      r: "r = (True, im\<lparr>edgeReader := rest, currentEdge := Some \<lparr>tail = t', head = h',
             length' = len, capacity = cap, freeFlowSpeed = speed\<rparr>\<rparr>)"
      by (auto simp: nextEdge_def er split: sum.splits option.splits if_splits)
    from t' h' have "t' \<in> ran (origToNewIds im)" "h' \<in> ran (origToNewIds im)"
      by (auto simp: ran_def)
    with ran have "0 \<le> t' \<and> t' < int (length vertices) \<and> 0 \<le> h' \<and> h' < int (length vertices)"
      by auto
    with t' h' r show ?thesis by auto
  qed
  have D: "\<exists>r. ?ne = Inr r"
    if "t \<in> ?V \<and> h \<in> ?V" "0 \<le> cap" "\<exists>speed \<ge> 0. lexicalCast_int speedField = Inr speed"
      "\<exists>d len. lexicalCast_double lengthField = Inr d
                       \<and> double_to_int (std_round d) = Inr len \<and> 0 \<le> len"
  proof -
    from that(1) dom have "t \<in> dom (origToNewIds im)" "h \<in> dom (origToNewIds im)"
      by simp_all
    then obtain t' h' where "origToNewIds im t = Some t'" "origToNewIds im h = Some h'"
      by blast
    with that(2,3,4) show ?thesis
      by (auto simp: nextEdge_def er)
  qed
  from A B C D show ?thesis by blast
qed

theorem nextEdge_endpoints_witness:
  "nextEdge decimal_int decimal_double (example_read [(10, 99, ''1000'', 100, ''50'')])
     = Inl unresolved_head
   \<and> nextEdge decimal_int decimal_double (example_read [(10, 11, ''1000'', 100, ''50'')])
     = Inr (True, (example_read [])\<lparr>currentEdge := Some \<lparr>tail = 0, head = 1, length' = 1000,
                capacity = 100, freeFlowSpeed = 50\<rparr>\<rparr>)"
proof -
  have seen: "(10::int) \<in> fst ` set example_vertices" "(11::int) \<in> fst ` set example_vertices"
    "(99::int) \<notin> fst ` set example_vertices"
    by (simp_all add: example_vertices_def)
  have len: "double_to_int (std_round (Finite 1000)) = Inr 1000"
    by (simp add: round_half_away_def trunc_zero_def is_int_def INT_MIN_def INT_MAX_def)
  have "\<exists>e. nextEdge decimal_int decimal_double (example_read [(10, 99, ''1000'', 100, ''50'')]) = Inl e
          \<and> unresolved_endpoint e"
    using nextEdge_endpoints[where t = 10 and h = 99 and lengthField = "''1000''" and cap = 100
        and speedField = "''50''" and rest = "[]" and lexicalCast_int = decimal_int
        and lexicalCast_double = decimal_double, OF example_new example_read]
      seen decimal_examples by simp
  moreover have "origToNewIds (example_read [(10, 99, ''1000'', 100, ''50'')]) 10 \<noteq> None"
    by (simp add: example_read_def)
  ultimately have bad: "nextEdge decimal_int decimal_double
      (example_read [(10, 99, ''1000'', 100, ''50'')]) = Inl unresolved_head"
    by (auto simp: unresolved_endpoint_def nextEdge_def example_read_def decimal_examples
        unresolved_tail_def unresolved_head_def split: if_splits)
  from nextEdge_endpoints[where t = 10 and h = 11 and lengthField = "''1000''" and cap = 100
        and speedField = "''50''" and rest = "[]" and lexicalCast_int = decimal_int
        and lexicalCast_double = decimal_double, OF example_new example_read]
    seen decimal_examples len
  obtain e where e: "nextEdge decimal_int decimal_double
      (example_read [(10, 11, ''1000'', 100, ''50'')])
      = Inr (True, (example_read [(10, 11, ''1000'', 100, ''50'')])\<lparr>edgeReader := [], currentEdge := Some e\<rparr>)"
    by auto
  then have "e = \<lparr>tail = 0, head = 1, length' = 1000, capacity = 100, freeFlowSpeed = 50\<rparr>"
    by (simp add: nextEdge_def example_read_def decimal_examples round_half_away_def
        trunc_zero_def is_int_def INT_MIN_def INT_MAX_def)
  with e have "nextEdge decimal_int decimal_double (example_read [(10, 11, ''1000'', 100, ''50'')])
     = Inr (True, (example_read [])\<lparr>currentEdge := Some \<lparr>tail = 0, head = 1, length' = 1000,
                capacity = 100, freeFlowSpeed = 50\<rparr>\<rparr>)"
    by (simp add: example_read_def)
  with bad show ?thesis by blast
qed

text \<open>
  Claim C7 as stated fails: an edge row with a negative capacity fails on the capacity
  assertion, which comes first, whether its tail is unknown (so the failure is not the
  unresolved endpoint) or both endpoints are known (so they are not resolved).
\<close>

theorem nextEdge_capacity_first:
  "nextEdge decimal_int decimal_double (example_read [(99, 10, ''1000'', - 1, ''50'')])
     = Inl negative_capacity
   \<and> \<not> unresolved_endpoint negative_capacity
   \<and> nextEdge decimal_int decimal_double (example_read [(10, 11, ''1000'', - 1, ''50'')])
     = Inl negative_capacity
   \<and> new_CsvImporter example_vertices [(99, 10, ''1000'', - 1, ''50'')] (Finite 1)
     = Inr (example_new [(99, 10, ''1000'', - 1, ''50'')])
   \<and> importVertices (example_new [(99, 10, ''1000'', - 1, ''50'')])
     = Inr (example_read [(99, 10, ''1000'', - 1, ''50'')])"
  by (simp add: nextEdge_def example_read_def negative_capacity_def unresolved_endpoint_def
      unresolved_tail_def unresolved_head_def example_new example_read[unfolded example_read_def])

section \<open>Properties of the derived attributes\<close>

lemma decimal_examples2:
  "decimal_int ''60'' = Inr 60" "decimal_double ''3600'' = Inr (Finite 3600)"
  "decimal_int ''0'' = Inr 0"
  by (simp_all add: decimal_int_def decimal_double_def decimal_def is_digit_def)

lemma decimal_examples3:
  "decimal_int ''1'' = Inr 1" "decimal_double ''59652324'' = Inr (Finite 59652324)"
  by (simp_all add: decimal_int_def decimal_double_def decimal_def is_digit_def)

text \<open>
  Claim C2, as amended. The result type of \<open>getValue<TravelTimeAttribute>\<close> is taken to be
  \<open>int\<close>, the type of the fields of the edge record. For the current edge record with
  length \<open>L \<ge> 0\<close> and free-flow speed \<open>S > 0\<close>, both values of type \<open>int\<close>, the function
  returns the integer nearest to \<open>36 * L / S\<close> if that is at most \<open>INT_MAX\<close>: the rounding
  of the double division does not change the integer that \<open>std::round\<close> yields. For
  \<open>L = 3600\<close> and \<open>S = 60\<close> it returns 2160. If the integer is above \<open>INT_MAX\<close>, its
  conversion to the result is undefined.
\<close>

theorem travel_time_rounded:
  assumes "currentEdge im = Some e"
    and "0 \<le> length' e" and "is_int (length' e)"
    and "0 < freeFlowSpeed e" and "is_int (freeFlowSpeed e)"
  shows "getValue_TravelTimeAttribute double_to_int im
         = (if round (36 * real_of_int (length' e) / real_of_int (freeFlowSpeed e)) \<le> INT_MAX
            then Inr (round (36 * real_of_int (length' e) / real_of_int (freeFlowSpeed e)))
            else Inl (Undefined FloatToIntOutOfRange))"
proof -
  let ?r = "round (36 * real_of_int (length' e) / real_of_int (freeFlowSpeed e))"
  from assms(2,4) have "0 \<le> 36 * real_of_int (length' e) / real_of_int (freeFlowSpeed e)"
    by simp
  then have "0 \<le> ?r" by (simp add: round_def)
  then have "is_int ?r \<longleftrightarrow> ?r \<le> INT_MAX"
    by (simp add: is_int_def INT_MIN_def)
  moreover have "getValue_TravelTimeAttribute double_to_int im = double_to_int (Finite (of_int ?r))"
    using assms by (simp add: getValue_TravelTimeAttribute_def travel_time_double)
  ultimately show ?thesis by (simp add: trunc_zero_def)
qed

theorem travel_time_rounded_witness:
  "nextEdge decimal_int decimal_double (example_read [(10, 11, ''3600'', 100, ''60'')])
     = Inr (True, example_edge 3600 100 60)
   \<and> getValue_TravelTimeAttribute double_to_int (example_edge 3600 100 60) = Inr 2160"
proof -
  have "nextEdge decimal_int decimal_double (example_read [(10, 11, ''3600'', 100, ''60'')])
     = Inr (True, example_edge 3600 100 60)"
    by (simp add: nextEdge_def example_read_def example_edge_def decimal_examples2
        round_half_away_def trunc_zero_def is_int_def INT_MIN_def INT_MAX_def)
  moreover have "getValue_TravelTimeAttribute double_to_int (example_edge 3600 100 60) = Inr 2160"
    using travel_time_rounded[of "example_edge 3600 100 60"
        "\<lparr>tail = 0, head = 1, length' = 3600, capacity = 100, freeFlowSpeed = 60\<rparr>"]
    by (simp add: example_edge_def is_int_def INT_MIN_def INT_MAX_def)
  ultimately show ?thesis by blast
qed

text \<open>
  Claim C2 as stated fails: the edge row of length 59652324 and speed 1 is accepted by
  \<open>nextEdge\<close>, and \<open>36 * 59652324 = 2147483664\<close> is above \<open>INT_MAX\<close>.
\<close>

theorem travel_time_overflow:
  "nextEdge decimal_int decimal_double (example_read [(10, 11, ''59652324'', 100, ''1'')])
     = Inr (True, example_edge 59652324 100 1)
   \<and> getValue_TravelTimeAttribute double_to_int (example_edge 59652324 100 1)
     = Inl (Undefined FloatToIntOutOfRange)
   \<and> round (36 * 59652324 / 1 :: real) = 2147483664"
proof -
  have ne: "nextEdge decimal_int decimal_double (example_read [(10, 11, ''59652324'', 100, ''1'')])
     = Inr (True, example_edge 59652324 100 1)"
    by (simp add: nextEdge_def example_read_def example_edge_def decimal_examples3
        round_half_away_def trunc_zero_def is_int_def INT_MIN_def INT_MAX_def)
  have i: "is_int 59652324" "is_int 1" by (simp_all add: is_int_def INT_MIN_def INT_MAX_def)
  from travel_time_double[OF _ i(1) _ i(2)]
  have "std_round (ddiv (dmul (Finite 36) (double_of_int 59652324)) (double_of_int 1))
      = Finite 2147483664"
    by simp
  then have "getValue_TravelTimeAttribute double_to_int (example_edge 59652324 100 1)
     = Inl (Undefined FloatToIntOutOfRange)"
    by (simp add: getValue_TravelTimeAttribute_def example_edge_def trunc_zero_def is_int_def
        INT_MIN_def INT_MAX_def)
  with ne show ?thesis by simp
qed

text \<open>
  Claim C10. An edge row whose speed field is parsed to 0, and whose other fields pass
  their checks, is accepted by \<open>nextEdge\<close>: the assertion on the speed admits zero. Then
  \<open>getValue<TravelTimeAttribute>\<close> divides by the zero speed: the double it converts to
  the result type is an infinity, or a NaN when the length is zero too. With a speed
  above zero in the same record the double is finite.
\<close>

theorem zero_speed_division:
  assumes "edgeReader im = (t, h, lengthField, cap, speedField) # rest"
    and "lexicalCast_int speedField = Inr 0"
    and "0 \<le> cap"
    and "origToNewIds im t = Some t'" and "origToNewIds im h = Some h'"
    and "lexicalCast_double lengthField = Inr d"
    and "double_to_int (std_round d) = Inr len" and "0 \<le> len"
  shows "\<exists>im'. nextEdge lexicalCast_int lexicalCast_double im = Inr (True, im')
           \<and> currentEdge im' = Some \<lparr>tail = t', head = h', length' = len,
                                        capacity = cap, freeFlowSpeed = 0\<rparr>
           \<and> getValue_TravelTimeAttribute to_Type im' = to_Type (if len = 0 then NaN else PInf)
           \<and> (\<forall>S. 0 < S \<and> is_int S \<longrightarrow>
                 (\<exists>x. getValue_TravelTimeAttribute to_Type
                        (im'\<lparr>currentEdge := Some \<lparr>tail = t', head = h', length' = len,
                                        capacity = cap, freeFlowSpeed = S\<rparr>\<rparr>)
                      = to_Type (Finite x)))"
proof -
  define im' where "im' = im\<lparr>edgeReader := rest,
    currentEdge := Some \<lparr>tail = t', head = h', length' = len, capacity = cap, freeFlowSpeed = 0\<rparr>\<rparr>"
  from assms have ne: "nextEdge lexicalCast_int lexicalCast_double im = Inr (True, im')"
    by (simp add: nextEdge_def im'_def)
  have ce: "currentEdge im' = Some \<lparr>tail = t', head = h', length' = len,
                                        capacity = cap, freeFlowSpeed = 0\<rparr>"
    by (simp add: im'_def)
  from assms(7) have il: "is_int len"
    by (cases "std_round d") (auto split: if_splits)
  from is_int_abs[OF this] have "\<bar>36 * len\<bar> < 2 ^ 53" by simp
  from binary64_of_int[OF this] double_of_int_is_int[OF il]
  have m: "dmul (Finite 36) (double_of_int len) = Finite (of_int (36 * len))" by simp
  have z: "double_of_int 0 = Finite 0"
    using double_of_int_exact[of 0] by simp
  from assms(8) have "std_round (ddiv (Finite (of_int (36 * len))) (Finite 0))
      = (if len = 0 then NaN else PInf)"
    by simp
  with m z ce have gv: "getValue_TravelTimeAttribute to_Type im'
      = to_Type (if len = 0 then NaN else PInf)"
    by (simp add: getValue_TravelTimeAttribute_def)
  have pos: "\<exists>x. getValue_TravelTimeAttribute to_Type
                        (im'\<lparr>currentEdge := Some \<lparr>tail = t', head = h', length' = len,
                                        capacity = cap, freeFlowSpeed = S\<rparr>\<rparr>)
                      = to_Type (Finite x)" if "0 < S \<and> is_int S" for S
    using travel_time_double[OF assms(8) il, of S] that
    by (auto simp: getValue_TravelTimeAttribute_def)
  from ne ce gv pos show ?thesis by blast
qed

theorem zero_speed_division_witness:
  "nextEdge decimal_int decimal_double (example_read [(10, 11, ''1000'', 100, ''0'')])
     = Inr (True, example_edge 1000 100 0)
   \<and> getValue_TravelTimeAttribute double_to_int (example_edge 1000 100 0)
     = Inl (Undefined FloatToIntOutOfRange)"
proof -
  have len: "double_to_int (std_round (Finite 1000)) = Inr 1000"
    by (simp add: round_half_away_def trunc_zero_def is_int_def INT_MIN_def INT_MAX_def)
  have ne: "nextEdge decimal_int decimal_double (example_read [(10, 11, ''1000'', 100, ''0'')])
     = Inr (True, example_edge 1000 100 0)"
    by (simp add: nextEdge_def example_read_def example_edge_def decimal_examples decimal_examples2
        round_half_away_def trunc_zero_def is_int_def INT_MIN_def INT_MAX_def)
  from zero_speed_division[where im = "example_read [(10, 11, ''1000'', 100, ''0'')]"
      and t = 10 and h = 11 and lengthField = "''1000''" and cap = 100 and speedField = "''0''"
      and rest = "[]" and lexicalCast_int = decimal_int and lexicalCast_double = decimal_double
      and t' = 0 and h' = 1 and d = "Finite 1000" and len = 1000 and to_Type = double_to_int]
    len
  obtain im' where
    "nextEdge decimal_int decimal_double (example_read [(10, 11, ''1000'', 100, ''0'')])
       = Inr (True, im')"
    "getValue_TravelTimeAttribute double_to_int im' = double_to_int (if (1000::int) = 0 then NaN else PInf)"
    by (auto simp: example_read_def decimal_examples decimal_examples2)
  with ne have "getValue_TravelTimeAttribute double_to_int (example_edge 1000 100 0)
     = Inl (Undefined FloatToIntOutOfRange)"
    by simp
  with ne show ?thesis by blast
qed

text \<open>
  Claim C3. \<open>getValue<CapacityAttribute>\<close> returns the capacity \<open>C\<close> divided by the
  analysis period \<open>P\<close> given to the constructor, rounded. The code does not do that: the
  constructor takes \<open>P\<close> as a double and asserts that it is positive, but stores it in a
  member of type \<open>int\<close>. For \<open>C = 100\<close> and \<open>P = 2.5\<close> the member is 2 and the result is
  50, where 100 / 2.5 is 40. For \<open>P = 0.5\<close> the assertion holds, the member is 0, and the
  capacity is divided by zero: the conversion of the infinity to an \<open>int\<close> result type is
  undefined.
\<close>

theorem capacity_period_truncated:
  "readFirstEdge decimal_int decimal_double example_vertices [(10, 11, ''1000'', 100, ''50'')]
       (Finite (5 / 2))
     = Inr ((example_edge 1000 100 50)\<lparr>analysisPeriod := 2\<rparr>)
   \<and> getValue_CapacityAttribute double_to_int ((example_edge 1000 100 50)\<lparr>analysisPeriod := 2\<rparr>)
     = Inr 50
   \<and> round (100 / (5 / 2) :: real) = 40
   \<and> readFirstEdge decimal_int decimal_double example_vertices [(10, 11, ''1000'', 100, ''50'')]
       (Finite (1 / 2))
     = Inr ((example_edge 1000 100 50)\<lparr>analysisPeriod := 0\<rparr>)
   \<and> getValue_CapacityAttribute double_to_int ((example_edge 1000 100 50)\<lparr>analysisPeriod := 0\<rparr>)
     = Inl (Undefined FloatToIntOutOfRange)"
proof -
  have int_simps: "double_of_int 100 = Finite 100" "double_of_int 2 = Finite 2"
    "double_of_int 0 = Finite 0"
    using double_of_int_exact[of 100] double_of_int_exact[of 2] double_of_int_exact[of 0]
    by simp_all
  have b100: "binary64 100 = Finite 100" using binary64_of_int[of 100] by simp
  have b50: "binary64 50 = Finite 50" using binary64_of_int[of 50] by simp
  have r1: "readFirstEdge decimal_int decimal_double example_vertices
       [(10, 11, ''1000'', 100, ''50'')] (Finite (5 / 2))
     = Inr ((example_edge 1000 100 50)\<lparr>analysisPeriod := 2\<rparr>)"
    by (simp add: readFirstEdge_def new_CsvImporter_def example_vertices_def
        importVertices.simps nextVertex_def nextEdge_def example_edge_def example_read_def
        decimal_examples round_half_away_def trunc_zero_def is_int_def INT_MIN_def INT_MAX_def)
  have r2: "readFirstEdge decimal_int decimal_double example_vertices
       [(10, 11, ''1000'', 100, ''50'')] (Finite (1 / 2))
     = Inr ((example_edge 1000 100 50)\<lparr>analysisPeriod := 0\<rparr>)"
    by (simp add: readFirstEdge_def new_CsvImporter_def example_vertices_def
        importVertices.simps nextVertex_def nextEdge_def example_edge_def example_read_def
        decimal_examples round_half_away_def trunc_zero_def is_int_def INT_MIN_def INT_MAX_def)
  have g1: "getValue_CapacityAttribute double_to_int
       ((example_edge 1000 100 50)\<lparr>analysisPeriod := 2\<rparr>) = Inr 50"
    by (simp add: getValue_CapacityAttribute_def example_edge_def example_read_def int_simps
        b100 b50 round_half_away_def trunc_zero_def is_int_def INT_MIN_def INT_MAX_def)
  have g2: "getValue_CapacityAttribute double_to_int
       ((example_edge 1000 100 50)\<lparr>analysisPeriod := 0\<rparr>) = Inl (Undefined FloatToIntOutOfRange)"
    by (simp add: getValue_CapacityAttribute_def example_edge_def example_read_def int_simps b100)
  have "round (100 / (5 / 2) :: real) = 40" by simp
  with r1 r2 g1 g2 show ?thesis by blast
qed

section \<open>Properties of the congestion levels\<close>

lemma binary64_nonneg_cases:
  assumes "0 \<le> x"
  shows "(rnd x < 2 ^ 1024 \<and> binary64 x = Finite (rnd x)) \<or> (2 ^ 1024 \<le> rnd x \<and> binary64 x = PInf)"
  using rnd_nonneg[OF assms] by (auto simp: binary64_def Let_def)

lemma rnd_pow2: "- 1074 \<le> k \<Longrightarrow> rnd (2 powi k) = 2 powi k"
  using rnd_exact[of 1 k] by simp


lemma level_value_nonneg: "0 \<le> f \<Longrightarrow> 0 < c \<Longrightarrow> 0 \<le> level_value f c"
  unfolding level_value_def by (intro rnd_nonneg) (simp add: rnd_nonneg)


lemma congestion_level_eq:
  assumes f: "0 \<le> f" and c: "0 < c" "is_int c"
  shows "congestion_level (Finite f) c =
          (if level_value f c < 2 ^ 64 then Inr (nat \<lfloor>level_value f c\<rfloor>)
           else Inl (Undefined FloatToIntOutOfRange))"
proof -
  have five: "double_of_int 5 = Finite 5"
    using double_of_int_exact[of 5] by simp
  have dc: "double_of_int c = Finite (of_int c)"
    by (rule double_of_int_is_int[OF c(2)])
  from c have rc: "0 < real_of_int c" "real_of_int c \<noteq> 0" by simp_all
  from is_int_abs[OF c(2)] c(1) have "c \<le> 2 ^ 31" by simp
  then have cle: "real_of_int c \<le> 2 ^ 31"
    by (metis of_int_le_iff of_int_numeral of_int_power)
  from f have f5: "0 \<le> 5 * f" by simp
  have big: "\<not> level_value f c < 2 ^ 64" if "2 ^ 1024 \<le> rnd (5 * f)"
  proof -
    have "(2::real) powi 993 * real_of_int c \<le> 2 powi 993 * 2 ^ 31"
      using cle by (intro mult_left_mono) simp_all
    also have "\<dots> = 2 ^ 1024" by simp
    also note that
    finally have "2 powi 993 \<le> rnd (5 * f) / real_of_int c"
      using rc by (simp add: pos_le_divide_eq)
    then have "rnd (2 powi 993) \<le> level_value f c"
      unfolding level_value_def by (intro rnd_mono_nonneg) simp_all
    with rnd_pow2[of 993] have "(2::real) powi 993 \<le> level_value f c" by simp
    moreover have "(2::real) ^ 64 \<le> 2 powi 993" by simp
    ultimately show ?thesis by linarith
  qed
  from binary64_nonneg_cases[OF f5] show ?thesis
  proof
    assume "2 ^ 1024 \<le> rnd (5 * f) \<and> binary64 (5 * f) = PInf"
    with big c(1) show ?thesis
      by (simp add: congestion_level_def five dc)
  next
    assume fin: "rnd (5 * f) < 2 ^ 1024 \<and> binary64 (5 * f) = Finite (rnd (5 * f))"
    have q0: "0 \<le> rnd (5 * f) / real_of_int c"
      using rnd_nonneg[OF f5] rc by simp
    from binary64_nonneg_cases[OF q0] show ?thesis
    proof
      assume "2 ^ 1024 \<le> rnd (rnd (5 * f) / real_of_int c)
          \<and> binary64 (rnd (5 * f) / real_of_int c) = PInf"
      moreover have "(2::real) ^ 64 \<le> 2 ^ 1024"
        by (rule power_increasing) simp_all
      ultimately have "2 ^ 1024 \<le> rnd (rnd (5 * f) / real_of_int c)
          \<and> binary64 (rnd (5 * f) / real_of_int c) = PInf \<and> \<not> level_value f c < 2 ^ 64"
        unfolding level_value_def by linarith
      then show ?thesis using fin rc
        by (simp add: congestion_level_def five dc)
    next
      assume "rnd (rnd (5 * f) / real_of_int c) < 2 ^ 1024
          \<and> binary64 (rnd (5 * f) / real_of_int c) = Finite (rnd (rnd (5 * f) / real_of_int c))"
      with fin rc level_value_nonneg[OF f c(1)] show ?thesis
        by (simp add: congestion_level_def five dc level_value_def trunc_zero_def)
    qed
  qed
qed

lemma congestion_band_eq:
  assumes "0 \<le> f" "0 < c" "is_int c" "2 \<le> ncolors"
  shows "congestion_band ncolors (Finite f) c =
          (if level_value f c < 2 ^ 64 then Inr (min (nat \<lfloor>level_value f c\<rfloor>) (ncolors - 2))
           else Inl (Undefined FloatToIntOutOfRange))"
  using assms by (simp add: congestion_band_def congestion_level_eq)


lemma level_value_examples:
  "level_value 1 1 = 5" "level_value (3 / 2) 1 = 15 / 2" "level_value (2 ^ 70) 1 = 5 * 2 ^ 70"
proof -
  have a: "rnd 5 = 5" using rnd_of_int[of 5] by simp
  have b: "rnd (15 / 2) = 15 / 2" using rnd_exact[of 15 "- 1"] by simp
  have c: "rnd (5 * 2 ^ 70) = 5 * 2 ^ 70" using rnd_exact[of 5 70] by simp
  show "level_value 1 1 = 5" by (simp add: level_value_def a)
  show "level_value (3 / 2) 1 = 15 / 2" by (simp add: level_value_def b)
  have "level_value (2 ^ 70) 1 = rnd (rnd (5 * 2 ^ 70))"
    by (simp only: level_value_def of_int_1 div_by_1)
  then show "level_value (2 ^ 70) 1 = 5 * 2 ^ 70" by (simp only: c)
qed

lemma is_int_1: "is_int 1"
  by (simp add: is_int_def INT_MIN_def INT_MAX_def)

lemma congestion_band_examples:
  "congestion_band 9 (Finite 1) 1 = Inr 5"
  "congestion_band 9 (Finite (3 / 2)) 1 = Inr 7"
  "congestion_band 9 (Finite (2 ^ 70)) 1 = Inl (Undefined FloatToIntOutOfRange)"
proof -
  show "congestion_band 9 (Finite 1) 1 = Inr 5"
    using congestion_band_eq[of 1 1 9] is_int_1 by (simp add: level_value_examples)
  show "congestion_band 9 (Finite (3 / 2)) 1 = Inr 7"
    using congestion_band_eq[of "3 / 2" 1 9] is_int_1 by (simp add: level_value_examples)
  have v: "\<not> level_value (2 ^ 70) 1 < 2 ^ 64"
    unfolding level_value_examples by simp
  have "congestion_band 9 (Finite (2 ^ 70)) 1 =
          (if level_value (2 ^ 70) 1 < 2 ^ 64
           then Inr (min (nat \<lfloor>level_value (2 ^ 70) 1\<rfloor>) (9 - 2))
           else Inl (Undefined FloatToIntOutOfRange))"
    by (rule congestion_band_eq[OF _ _ is_int_1]) simp_all
  with v show "congestion_band 9 (Finite (2 ^ 70)) 1 = Inl (Undefined FloatToIntOutOfRange)"
    by (simp only: if_False)
qed



section \<open>Properties of the flow file check\<close>

text \<open>
  What the check does establish: an accepted flow file has rows with positive iterations
  and flows that are not negative, and their number is the last iteration times the
  number of edges. So a file with a bad row, or whose number of rows is not a multiple of
  the number of edges, is not accepted: the exception is thrown, unless a product
  overflows first. In either case no command has been issued.
\<close>

lemma readFlowRows_accepted:
  "readFlowRows n rows (flows0, it0, prev0) = Inr (flows, it, prev) \<Longrightarrow>
     flows = flows0 @ map snd rows
     \<and> (\<forall>row \<in> set rows. 0 < fst row \<and> \<not> dless (snd row) (Finite 0))"
proof (induction rows arbitrary: flows0 it0 prev0)
  case Nil
  then show ?case by simp
next
  case (Cons row rows)
  obtain r f where row: "row = (r, f)" by (cases row)
  from Cons.prems row have ok: "0 < r" "\<not> dless f (Finite 0)"
    by (auto split: if_splits)
  from Cons.prems row obtain prev1 where
    "readFlowRows n rows (flows0 @ [f], Some r, prev1) = Inr (flows, it, prev)"
    by (auto split: if_splits sum.splits)
  from Cons.IH[OF this] ok row show ?case by simp
qed

lemma readFlowRows_failure:
  "readFlowRows n rows st = Inl e \<Longrightarrow> e = flow_file_corrupt \<or> e = Undefined SignedOverflow"
proof (induction rows arbitrary: st)
  case Nil
  then show ?case by simp
next
  case (Cons row rows)
  obtain r f where row: "row = (r, f)" by (cases row)
  obtain fl it p where st: "st = (fl, it, p)" by (cases st)
  from Cons.prems Cons.IH show ?case
    unfolding row st by (auto simp: int_mul_def split: if_splits sum.splits)
qed

lemma readFlowRows_some:
  "readFlowRows n rows (flows0, Some i, prev0) = Inr (flows, it, prev) \<Longrightarrow> it \<noteq> None"
proof (induction rows arbitrary: flows0 i prev0)
  case Nil
  then show ?case by auto
next
  case (Cons row rows)
  obtain r f where row: "row = (r, f)" by (cases row)
  from Cons.prems row obtain prev1 where
    "readFlowRows n rows (flows0 @ [f], Some r, prev1) = Inr (flows, it, prev)"
    by (auto split: if_splits sum.splits)
  from Cons.IH[OF this] show ?case .
qed

lemma readFlowFile_accepted:
  assumes "readFlowFile n rows = Inr (flows, it)"
  shows "flows = map snd rows" and "int (length rows) = it * n"
    and "\<forall>row \<in> set rows. 0 < fst row \<and> \<not> dless (snd row) (Finite 0)"
proof -
  from assms obtain prev where
    run: "readFlowRows n rows ([], None, 1) = Inr (flows, Some it, prev)" and
    len: "int (length flows) = it * n"
    by (auto simp: readFlowFile_def int_mul_def split: sum.splits prod.splits option.splits if_splits)
  from readFlowRows_accepted[OF run] show "flows = map snd rows"
    and "\<forall>row \<in> set rows. 0 < fst row \<and> \<not> dless (snd row) (Finite 0)"
    by simp_all
  with len show "int (length rows) = it * n" by simp
qed

lemma readFlowFile_rejected:
  assumes "(\<exists>row \<in> set rows. fst row \<le> 0 \<or> dless (snd row) (Finite 0))
           \<or> \<not> n dvd int (length rows)"
  shows "readFlowFile n rows = Inl flow_file_corrupt
         \<or> readFlowFile n rows = Inl (Undefined SignedOverflow)"
proof (cases "readFlowFile n rows")
  case (Inr res)
  obtain flows it where "res = (flows, it)" by (cases res)
  with Inr readFlowFile_accepted[of n rows flows it] assms show ?thesis
    by (auto simp: dvd_def)
next
  case (Inl e)
  from assms have ne: "rows \<noteq> []" by auto
  show ?thesis
  proof (cases "readFlowRows n rows ([], None, 1)")
    case l: (Inl e')
    with Inl have "e = e'" by (simp add: readFlowFile_def)
    with readFlowRows_failure[OF l] Inl show ?thesis by auto
  next
    case r: (Inr st)
    obtain fl it p where st: "st = (fl, it, p)" by (cases st)
    from ne obtain row rest where rows: "rows = row # rest" by (cases rows) auto
    obtain i f where row: "row = (i, f)" by (cases row)
    from r st rows row obtain p1 where
      "readFlowRows n rest ([f], Some i, p1) = Inr (fl, it, p)"
      by (auto split: if_splits sum.splits)
    then have "it \<noteq> None"
      by (rule readFlowRows_some)
    with Inl r st show ?thesis
      by (auto simp: readFlowFile_def int_mul_def split: if_splits)
  qed
qed

lemma drawFlowFile_rejected:
  "readFlowFile (numEdges fp) rows = Inl e \<Longrightarrow> drawFlowFile fp period rows = ([], Some e)"
  by (simp add: drawFlowFile_def)

text \<open>
  Claim C6. A flow table is accepted only if its iterations are 1, 2, 3, ... without a
  gap and each has exactly \<open>numEdges\<close> rows. The code does not do that: when the
  iteration of a row differs from \<open>prevIteration\<close> it checks the number of rows read so
  far and increments \<open>prevIteration\<close>, but never compares the new iteration with
  \<open>prevIteration + 1\<close>. With one edge, the rows of iterations 1, 3, 3 are accepted, with
  3 as the number of iterations: there is no iteration 2, and iteration 3 has two rows.
\<close>

theorem readFlowFile_accepts_gap:
  "readFlowFile 1 [(1, Finite 0), (3, Finite 0), (3, Finite 0)]
     = Inr ([Finite 0, Finite 0, Finite 0], 3)"
  by (simp add: readFlowFile_def int_mul_def is_int_def INT_MIN_def INT_MAX_def
      flow_file_corrupt_def)

text \<open>
  Claim C5. A flow table whose number of rows is not a multiple of the number of edges is
  rejected with the exception "flow file corrupt". With nine edges, take nine rows of
  iteration 1 and one row of iteration 954437178: ten rows. The last row passes the check
  at the change of iteration (nine rows read, \<open>prevIteration * numEdges = 9\<close>), and the
  final check computes \<open>iteration * numEdges = 8589934602\<close> in the type \<open>int\<close>: a signed
  overflow, not the exception. (Wrapped to 32 bits the product is 10, the number of rows.)
\<close>

theorem readFlowFile_overflow:
  "readFlowFile 9 (replicate 9 (1, Finite 0) @ [(954437178, Finite 0)])
     = Inl (Undefined SignedOverflow)
   \<and> length (replicate 9 (1 :: int, Finite 0) @ [(954437178, Finite 0)]) = 10
   \<and> (954437178 * 9) mod 2 ^ 32 = (10 :: int)"
proof -
  have "readFlowFile 9 (replicate 9 (1, Finite 0) @ [(954437178, Finite 0)])
     = Inl (Undefined SignedOverflow)"
    by (simp add: readFlowFile_def int_mul_def is_int_def INT_MIN_def INT_MAX_def
        flow_file_corrupt_def numeral_eq_Suc)
  moreover have "length (replicate 9 (1 :: int, Finite 0) @ [(954437178, Finite 0)]) = 10"
    by simp
  moreover have "(954437178 * 9) mod 2 ^ 32 = (10 :: int)"
    by simp
  ultimately show ?thesis by blast
qed

section \<open>Properties of the drawing of flow patterns\<close>





lemma is_SetColor_simps [simp]:
  "is_SetColor (SetColor c)" "\<not> is_SetColor NewPage"
  "\<not> is_SetColor (SetLineWidth w)" "\<not> is_SetColor (DrawLine p q)"
  by (simp_all add: is_SetColor_def)












lemma example_doubles:
  "double_of_int 1 = Finite 1" "binary64 1 = Finite 1"
  using double_of_int_exact[of 1] binary64_of_int[of 1] by simp_all

lemma example_readFlowFile:
  "readFlowFile 2 example_flows = Inr ([Finite 1, Finite 1, Finite (3 / 2), Finite 1], 2)"
  by (simp add: readFlowFile_def example_flows_def int_mul_def is_int_def INT_MIN_def INT_MAX_def
      flow_file_corrupt_def)

lemma example_scaleCapacities:
  "scaleCapacities (Finite 1) (allEdges (graph example_pass)) (graph example_pass)
     = Inr (example_graph\<lparr>graph_capacity := (\<lambda>e. 1)(0 := 1, 1 := 1)\<rparr>)"
  by (simp add: example_pass_def example_graph_def example_doubles std_max_def
      round_half_away_def trunc_zero_def is_int_def INT_MIN_def INT_MAX_def)

lemma example_scaled_fields:
  "length (REDS_9CLASS example_scaled) = 9"
  "edgeFlows example_scaled = [Finite 1, Finite 1, Finite (3 / 2), Finite 1]"
  "graph_edgeId (graph example_scaled) e = e"
  "graph_capacity (graph example_scaled) e = 1"
  "validEdges (graph example_scaled) = [(0, 0), (1, 1)]"
  by (simp_all add: example_scaled_def example_pass_def example_graph_def)

lemma example_bands:
  "edge_band example_scaled 0 (0, 0) = Inr 5" "edge_band example_scaled 0 (1, 1) = Inr 5"
  "edge_band example_scaled 2 (0, 0) = Inr 7" "edge_band example_scaled 2 (1, 1) = Inr 5"
  by (simp_all add: edge_band_def example_scaled_fields congestion_band_examples)

lemma example_classify:
  "classifyEdges example_scaled 0 (validEdges (graph example_scaled))
      (replicate (length (REDS_9CLASS example_scaled) - 1) [])
     = Inr [[], [], [], [], [], [(0, 0), (1, 1)], [], []]"
  "classifyEdges example_scaled 2 (validEdges (graph example_scaled))
      (replicate (length (REDS_9CLASS example_scaled) - 1) [])
     = Inr [[], [], [], [], [], [(1, 1)], [], [(0, 0)]]"
  by (simp_all add: example_scaled_fields example_bands numeral_eq_Suc)

lemma example_drawLevels:
  "drawLevels example_scaled [[], [], [], [], [], [(0, 0), (1, 1)], [], []] = example_page1"
  "drawLevels example_scaled [[], [], [], [], [], [(1, 1)], [], [(0, 0)]] = example_page2"
  by (simp_all add: drawLevels_def drawEdge_def upt_rec
      example_page1_def example_page2_def example_scaled_def example_pass_def example_graph_def
      example_doubles)

lemma example_drawIteration:
  "drawIteration example_scaled 0 = Inr example_page1"
  "drawIteration example_scaled 2 = Inr example_page2"
  by (simp_all only: drawIteration_def example_classify example_drawLevels sum.case)

lemma example_drawFlowPatterns:
  "drawFlowPatterns example_scaled 1 0 = (example_page1 @ [NewPage] @ example_page2, None)"
proof -
  have f: "iteration example_scaled = 2" "numEdges example_scaled = 2"
    "drawIntermediates example_scaled = False"
    by (simp_all add: example_scaled_def example_pass_def)
  have ov: "\<not> loop_step_overflows example_scaled 1 0" "\<not> loop_step_overflows example_scaled 2 2"
    by (simp_all add: loop_step_overflows_def f is_int_def INT_MIN_def INT_MAX_def)
  have "drawFlowPatterns example_scaled 3 4 = ([], None)"
    by (simp add: drawFlowPatterns.simps[of example_scaled 3 4] f)
  then have "drawFlowPatterns example_scaled 2 2 = ([NewPage] @ example_page2, None)"
    by (simp add: drawFlowPatterns.simps[of example_scaled 2 2] f ov example_drawIteration
        new_page_before_def)
  then show ?thesis
    by (simp add: drawFlowPatterns.simps[of example_scaled 1 0] f ov example_drawIteration
        new_page_before_def)
qed

lemma example_drawFlowFile:
  "drawFlowFile example_pass (Finite 1) example_flows
     = (example_page1 @ [NewPage] @ example_page2, None)"
proof -
  have "numEdges example_pass = 2" by (simp add: example_pass_def)
  moreover have "example_pass\<lparr>graph := example_graph\<lparr>graph_capacity := (\<lambda>e. 1)(0 := 1, 1 := 1)\<rparr>,
                  edgeFlows := [Finite 1, Finite 1, Finite (3 / 2), Finite 1], iteration := 2\<rparr>
      = example_scaled"
    by (simp add: example_scaled_def)
  ultimately show ?thesis
    by (simp add: drawFlowFile_def example_readFlowFile example_scaleCapacities
        example_drawFlowPatterns)
qed











lemma readFlowFile_nonempty: "readFlowFile n rows = Inr res \<Longrightarrow> rows \<noteq> []"
  by (auto simp: readFlowFile_def)






end
